theory Spec2Isabelle
  imports Main "HOL-Library.AList"
begin

section \<open>Values received from the preview service\<close>

text \<open>
  The bodies returned by the service are parsed JSON and are typed \<^verbatim>\<open>any\<close> in the
  TypeScript source. An object is the list of its own properties in key order (keys
  distinct, as \<^verbatim>\<open>JSON.parse\<close> produces them); members inherited from
  \<^verbatim>\<open>Object.prototype\<close> are not part of the model. A number is only ever tested for
  being zero by the code, so an integer stands for it.
\<close>

datatype json =
    JNull
  | JBool bool
  | JNum int
  | JStr string
  | JArr "json list"
  | JObj "(string \<times> json) list"

text \<open>JavaScript truthiness, as used by \<^verbatim>\<open>!x\<close>, \<^verbatim>\<open>x && y\<close> and \<^verbatim>\<open>x || y\<close>.\<close>

fun truthy :: "json \<Rightarrow> bool" where
  "truthy JNull = False"
| "truthy (JBool b) = b"
| "truthy (JNum n) = (n \<noteq> 0)"
| "truthy (JStr s) = (s \<noteq> [])"
| "truthy (JArr xs) = True"
| "truthy (JObj kvs) = True"

text \<open>
  Reading a named property (\<^verbatim>\<open>x.status\<close>, \<^verbatim>\<open>x.screenshots\<close>, \<^verbatim>\<open>x.default\<close>,
  \<^verbatim>\<open>x.results\<close>): \<open>None\<close> is \<^verbatim>\<open>undefined\<close>. Only objects carry these names.
\<close>

fun field :: "json \<Rightarrow> string \<Rightarrow> json option" where
  "field (JObj kvs) k = map_of kvs k"
| "field v k = None"

text \<open>The outcome of one \<^verbatim>\<open>axios.get\<close>: a 2xx body, an error carrying an HTTP
  response status, or an error without a response (network failure, timeout).\<close>

datatype 'a fetch_outcome = Response 'a | HttpError nat | NetworkError

text \<open>What the polling code does that a caller or an observer can see, in order.\<close>

datatype level = Info | Warning | Error

datatype message =
    NoClientsRequested
  | AllFinal
  | NotFoundYet
  | AuthFailed
  | UnexpectedStatus nat
  | NetworkOrUnexpected
  | MaxAttemptsReached
  | NoUrlsRetrieved
  | SomeMissing "string list"
  | AllRetrieved nat
  | RetrievedUnrequested nat
  | NoResponseRetrieved
  | MissingCredentials
  | SaveFailed

datatype event = Fetch nat | Sleep nat | Console level message

datatype error = MissingTestId | AxiosError nat

definition MAX_POLLING_ATTEMPTS :: nat where
  "MAX_POLLING_ATTEMPTS = 60"

definition POLLING_INTERVAL_MS :: nat where
  "POLLING_INTERVAL_MS = 10000"

section \<open>EmailOnAcidService.getPreviewUrls\<close>

text \<open>
  \<^verbatim>\<open>currentApiResults: Record<string, any>\<close> is an object from client key to client
  result; \<^verbatim>\<open>extractedUrls: Record<string, string>\<close> keeps its keys in insertion order,
  which \<open>AList.update\<close> reproduces (client keys are not integer-like).
\<close>

type_synonym api_results = "(string \<times> json) list"
type_synonym urls = "(string \<times> string) list"

definition screenshots_default :: "json \<Rightarrow> json option" where
  "screenshots_default clientResult =
     (case field clientResult ''screenshots'' of
        None \<Rightarrow> None
      | Some JNull \<Rightarrow> None
      | Some s \<Rightarrow> field s ''default'')"

definition clientsToMonitor :: "string list \<Rightarrow> api_results \<Rightarrow> string list" where
  "clientsToMonitor emailClients currentApiResults =
     (if emailClients \<noteq> [] then emailClients else map fst currentApiResults)"

text \<open>\<^verbatim>\<open>extractedUrls[targetClientId] = u\<close> (line 283): the assignment adds or replaces
  the entry, except under the name \<^verbatim>\<open>__proto__\<close>, where assigning a string to an object
  changes nothing.\<close>

definition store_url :: "string \<Rightarrow> string \<Rightarrow> urls \<Rightarrow> urls" where
  "store_url targetClientId u extractedUrls =
     (if targetClientId = ''__proto__'' then extractedUrls
      else AList.update targetClientId u extractedUrls)"

text \<open>One turn of the loop over \<^verbatim>\<open>clientsToMonitor\<close> (lines 268 to 304): the state is
  \<^verbatim>\<open>extractedUrls\<close> and \<^verbatim>\<open>allTargetClientsProcessed\<close>.\<close>

fun process_client :: "api_results \<Rightarrow> urls \<times> bool \<Rightarrow> string \<Rightarrow> urls \<times> bool" where
  "process_client currentApiResults (extractedUrls, allTargetClientsProcessed) targetClientId =
     (case map_of currentApiResults targetClientId of
        None \<Rightarrow> (extractedUrls, False)
      | Some clientResult \<Rightarrow>
          if \<not> truthy clientResult then (extractedUrls, False)
          else if field clientResult ''status'' = Some (JStr ''Complete'') then
            (case screenshots_default clientResult of
               Some (JStr u) \<Rightarrow>
                 if u \<noteq> [] then
                   (if map_of extractedUrls targetClientId \<noteq> Some u
                    then (store_url targetClientId u extractedUrls, allTargetClientsProcessed)
                    else (extractedUrls, allTargetClientsProcessed))
                 else (extractedUrls, False)
             | _ \<Rightarrow> (extractedUrls, False))
          else if field clientResult ''status'' = Some (JStr ''Failed'')
                \<or> field clientResult ''status'' = Some (JStr ''Bounced'') then
            (extractedUrls, allTargetClientsProcessed)
          else (extractedUrls, False))"

text \<open>Lines 261 to 304: the flag starts false when nothing came back although clients
  are monitored, then every monitored client is looked at in turn.\<close>

definition check_clients :: "string list \<Rightarrow> urls \<Rightarrow> api_results \<Rightarrow> urls \<times> bool" where
  "check_clients monitored extractedUrls currentApiResults =
     foldl (process_client currentApiResults)
       (extractedUrls, \<not> (currentApiResults = [] \<and> monitored \<noteq> [])) monitored"

text \<open>The filter of lines 307 to 310.\<close>

definition is_final :: "api_results \<Rightarrow> string \<Rightarrow> bool" where
  "is_final currentApiResults c =
     (case map_of currentApiResults c of
        None \<Rightarrow> False
      | Some clientData \<Rightarrow>
          truthy clientData \<and>
          (field clientData ''status'' = Some (JStr ''Complete'')
           \<or> field clientData ''status'' = Some (JStr ''Failed'')
           \<or> field clientData ''status'' = Some (JStr ''Bounced'')))"

text \<open>\<^verbatim>\<open>response.data || {}\<close>: \<open>None\<close> is a body that is missing or falsy.\<close>

definition data_or_empty :: "api_results option \<Rightarrow> api_results" where
  "data_or_empty data = (case data of None \<Rightarrow> [] | Some d \<Rightarrow> d)"

text \<open>The body of one polling attempt (the \<^verbatim>\<open>try\<close>/\<^verbatim>\<open>catch\<close> of lines 249 to 341).
  \<open>Stop\<close> leaves the loop (by \<^verbatim>\<open>break\<close> or by the re-thrown error), \<open>Next\<close> goes on
  to the sleep test with the new \<^verbatim>\<open>extractedUrls\<close> and \<^verbatim>\<open>allTargetClientsProcessed\<close>.
  The progress lines printed per client are left out of the events.\<close>

datatype attempt_result =
    Stop "error + urls" "event list"
  | Next urls bool "event list"

definition poll_attempt ::
  "string list \<Rightarrow> urls \<Rightarrow> api_results option fetch_outcome \<Rightarrow> attempt_result" where
  "poll_attempt emailClients extractedUrls outcome =
     (case outcome of
        Response data \<Rightarrow>
          (let currentApiResults = data_or_empty data;
               monitored = clientsToMonitor emailClients currentApiResults;
               (extractedUrls', allTargetClientsProcessed) =
                  check_clients monitored extractedUrls currentApiResults
           in if length (filter (is_final currentApiResults) monitored) = length monitored
              then Stop (Inr extractedUrls') [Console Info AllFinal]
              else Next extractedUrls' allTargetClientsProcessed [])
      | HttpError status \<Rightarrow>
          if status = 404 then Next extractedUrls False [Console Warning NotFoundYet]
          else if status = 401 then Stop (Inl (AxiosError status)) [Console Error AuthFailed]
          else Next extractedUrls False [Console Warning (UnexpectedStatus status)]
      | NetworkError \<Rightarrow> Next extractedUrls False [Console Warning NetworkOrUnexpected])"

text \<open>The sleep test that ends every turn of the loop that was not left
  (lines 343 to 346, and lines 120 to 123 of the results script).\<close>

definition wait_events :: "nat \<Rightarrow> bool \<Rightarrow> event list" where
  "wait_events attempt allProcessed =
     (if attempt < MAX_POLLING_ATTEMPTS - 1 \<and> \<not> allProcessed
      then [Sleep POLLING_INTERVAL_MS] else [])"

fun prepend :: "event list \<Rightarrow> 'r \<times> event list \<Rightarrow> 'r \<times> event list" where
  "prepend evs (r, rest) = (r, evs @ rest)"

text \<open>The \<^verbatim>\<open>for\<close> loop of lines 246 to 347, from a given attempt number on.\<close>

function poll_loop ::
  "(nat \<Rightarrow> api_results option fetch_outcome) \<Rightarrow> string list \<Rightarrow> nat \<Rightarrow> urls
     \<Rightarrow> (error + urls) \<times> event list" where
  "poll_loop fetch emailClients attempt extractedUrls =
     (if attempt < MAX_POLLING_ATTEMPTS then
        (case poll_attempt emailClients extractedUrls (fetch attempt) of
           Stop r evs \<Rightarrow> (r, Fetch attempt # evs)
         | Next extractedUrls' allTargetClientsProcessed evs \<Rightarrow>
             prepend (Fetch attempt # evs @ wait_events attempt allTargetClientsProcessed)
               (poll_loop fetch emailClients (Suc attempt) extractedUrls'))
      else (Inr extractedUrls, []))"
  by pat_completeness auto
termination
  by (relation "measure (\<lambda>(fetch, emailClients, attempt, extractedUrls). MAX_POLLING_ATTEMPTS - attempt)") auto

declare poll_loop.simps [simp del]

text \<open>The closing summary of lines 350 to 359.\<close>

definition closing_summary :: "string list \<Rightarrow> urls \<Rightarrow> event" where
  "closing_summary emailClients extractedUrls =
     (if length extractedUrls = 0 \<and> length emailClients > 0 then
        Console Warning NoUrlsRetrieved
      else if length emailClients > 0 \<and> length extractedUrls < length emailClients then
        Console Warning (SomeMissing (filter (\<lambda>c. map_of extractedUrls c = None) emailClients))
      else if length emailClients > 0 then Console Info (AllRetrieved (length extractedUrls))
      else Console Info (RetrievedUnrequested (length extractedUrls)))"

definition getPreviewUrls ::
  "string \<Rightarrow> string list \<Rightarrow> (nat \<Rightarrow> api_results option fetch_outcome)
     \<Rightarrow> (error + urls) \<times> event list" where
  "getPreviewUrls test_id emailClients fetch =
     (if test_id = [] then (Inl MissingTestId, [])
      else
        (let warned = (if emailClients = [] then [Console Warning NoClientsRequested] else []);
             (r, evs) = poll_loop fetch emailClients 0 []
         in case r of
              Inl e \<Rightarrow> (Inl e, warned @ evs)
            | Inr extractedUrls \<Rightarrow>
                (Inr extractedUrls,
                 warned @ evs @ [closing_summary emailClients extractedUrls])))"

section \<open>The results script, get-full-eoa-results.ts\<close>

text \<open>\<^verbatim>\<open>fullApiResponse?.results || []\<close>.\<close>

definition results_of :: "json \<Rightarrow> json" where
  "results_of fullApiResponse =
     (case field fullApiResponse ''results'' of
        None \<Rightarrow> JArr []
      | Some v \<Rightarrow> if truthy v then v else JArr [])"

text \<open>One turn of the loop over the results (lines 80 to 89), for the flag
  \<^verbatim>\<open>allClientStatusesFinal\<close>; the three counters only feed the summary line, which is
  left out of the events.\<close>

fun count_client :: "bool \<Rightarrow> json \<Rightarrow> bool" where
  "count_client allClientStatusesFinal clientResult =
     (if field clientResult ''status'' = Some (JStr ''complete'') then allClientStatusesFinal
      else if field clientResult ''status'' = Some (JStr ''pending'') then False
      else allClientStatusesFinal)"



datatype script_step = Break | Exit nat | Continue bool

text \<open>Lines 74 to 100 once \<^verbatim>\<open>results\<close> can be iterated and has \<open>totalCount\<close> as its
  \<^verbatim>\<open>length\<close>: first the value of \<^verbatim>\<open>allClientStatusesFinal\<close> after lines 76 to 90, then
  the exit test.\<close>

definition statuses_final :: "nat \<Rightarrow> json list \<Rightarrow> nat \<Rightarrow> bool" where
  "statuses_final attempt results totalCount =
     (if totalCount = 0 \<and> attempt = 0 then False else foldl count_client True results)"

definition check_results :: "nat \<Rightarrow> json list \<Rightarrow> nat \<Rightarrow> script_step \<times> event list" where
  "check_results attempt results totalCount =
     (let allClientStatusesFinal = statuses_final attempt results totalCount
      in if allClientStatusesFinal \<and> totalCount > 0 then (Break, [Console Info AllFinal])
         else (Continue allClientStatusesFinal,
               if attempt = MAX_POLLING_ATTEMPTS - 1
               then [Console Warning MaxAttemptsReached] else []))"

text \<open>The body of one attempt (lines 67 to 118). A \<^verbatim>\<open>results\<close> value that is neither an
  array nor a string cannot be iterated: \<^verbatim>\<open>for ... of\<close> throws, and the \<^verbatim>\<open>catch\<close>
  treats that like a network error. Only an object whose \<^verbatim>\<open>length\<close> is 0 on the first
  attempt never reaches the iteration.\<close>

definition script_attempt :: "nat \<Rightarrow> json fetch_outcome \<Rightarrow> script_step \<times> event list" where
  "script_attempt attempt outcome =
     (case outcome of
        Response data \<Rightarrow>
          (case results_of data of
             JArr xs \<Rightarrow> check_results attempt xs (length xs)
           | JStr s \<Rightarrow> check_results attempt (map (\<lambda>c. JStr [c]) s) (length s)
           | JObj kvs \<Rightarrow>
               if map_of kvs ''length'' = Some (JNum 0) \<and> attempt = 0
               then (Continue False, [])
               else (Continue False, [Console Warning NetworkOrUnexpected])
           | _ \<Rightarrow> (Continue False, [Console Warning NetworkOrUnexpected]))
      | HttpError status \<Rightarrow>
          if status = 404 then (Continue False, [Console Warning NotFoundYet])
          else if status = 401 then (Exit 1, [Console Error AuthFailed])
          else (Continue False, [Console Warning (UnexpectedStatus status)])
      | NetworkError \<Rightarrow> (Continue False, [Console Warning NetworkOrUnexpected]))"

text \<open>The \<^verbatim>\<open>for\<close> loop of lines 61 to 124; \<^verbatim>\<open>fullApiResponse\<close> is the last body
  received. \<open>Inl\<close> is the exit code of \<^verbatim>\<open>process.exit\<close>.\<close>

definition received :: "json option \<Rightarrow> json fetch_outcome \<Rightarrow> json option" where
  "received fullApiResponse outcome =
     (case outcome of Response data \<Rightarrow> Some data | _ \<Rightarrow> fullApiResponse)"

function script_loop ::
  "(nat \<Rightarrow> json fetch_outcome) \<Rightarrow> nat \<Rightarrow> json option \<Rightarrow> (nat + json option) \<times> event list" where
  "script_loop fetch attempt fullApiResponse =
     (if attempt < MAX_POLLING_ATTEMPTS then
        (case script_attempt attempt (fetch attempt) of
           (Break, evs) \<Rightarrow> (Inr (received fullApiResponse (fetch attempt)), Fetch attempt # evs)
         | (Exit code, evs) \<Rightarrow> (Inl code, Fetch attempt # evs)
         | (Continue allClientStatusesFinal, evs) \<Rightarrow>
             prepend (Fetch attempt # evs @ wait_events attempt allClientStatusesFinal)
               (script_loop fetch (Suc attempt) (received fullApiResponse (fetch attempt))))
      else (Inr fullApiResponse, []))"
  by pat_completeness auto
termination
  by (relation "measure (\<lambda>(fetch, attempt, fullApiResponse). MAX_POLLING_ATTEMPTS - attempt)") auto

declare script_loop.simps [simp del]

datatype script_result = ProcessExit nat | Saved json

text \<open>After the loop (lines 126 to 141): \<open>write_ok\<close> says whether \<^verbatim>\<open>writeFileSync\<close>
  succeeds, and \<open>Saved\<close> carries the value whose serialisation is written.\<close>

fun save_response :: "bool \<Rightarrow> (nat + json option) \<times> event list \<Rightarrow> script_result \<times> event list" where
  "save_response write_ok (Inl code, evs) = (ProcessExit code, evs)"
| "save_response write_ok (Inr None, evs) =
     (ProcessExit 1, evs @ [Console Warning NoResponseRetrieved])"
| "save_response write_ok (Inr (Some fullApiResponse), evs) =
     (if \<not> truthy fullApiResponse
      then (ProcessExit 1, evs @ [Console Warning NoResponseRetrieved])
      else if write_ok then (Saved fullApiResponse, evs)
      else (ProcessExit 1, evs @ [Console Error SaveFailed]))"

text \<open>The whole script; the credentials come from the environment.\<close>

definition getFullEmailOnAcidResults ::
  "string option \<Rightarrow> string option \<Rightarrow> (nat \<Rightarrow> json fetch_outcome) \<Rightarrow> bool
     \<Rightarrow> script_result \<times> event list" where
  "getFullEmailOnAcidResults apiKey accountPassword fetch write_ok =
     (if apiKey = None \<or> apiKey = Some [] \<or> accountPassword = None \<or> accountPassword = Some []
      then (ProcessExit 1, [Console Error MissingCredentials])
      else save_response write_ok (script_loop fetch 0 None))"

section \<open>globalSetup\<close>

text \<open>
  Strings are HOL strings; case mapping, the whitespace class \<^verbatim>\<open>\s\<close> and the word class
  \<^verbatim>\<open>\w\<close> are taken on ASCII, which is what task names and client keys are made of.
\<close>

definition charCode :: "char \<Rightarrow> nat" where
  "charCode c = of_char c"

definition is_lower :: "char \<Rightarrow> bool" where
  "is_lower c = (charCode CHR ''a'' \<le> charCode c \<and> charCode c \<le> charCode CHR ''z'')"

definition is_upper :: "char \<Rightarrow> bool" where
  "is_upper c = (charCode CHR ''A'' \<le> charCode c \<and> charCode c \<le> charCode CHR ''Z'')"

definition is_digit :: "char \<Rightarrow> bool" where
  "is_digit c = (charCode CHR ''0'' \<le> charCode c \<and> charCode c \<le> charCode CHR ''9'')"

definition is_space :: "char \<Rightarrow> bool" where
  "is_space c = (c = CHR '' '' \<or> (9 \<le> charCode c \<and> charCode c \<le> 13))"

definition is_word :: "char \<Rightarrow> bool" where
  "is_word c = (is_lower c \<or> is_upper c \<or> is_digit c \<or> c = CHR ''_'')"

definition toLowerCase :: "string \<Rightarrow> string" where
  "toLowerCase s = map (\<lambda>c. if is_upper c then char_of (charCode c + 32) else c) s"

definition toUpperCase :: "string \<Rightarrow> string" where
  "toUpperCase s = map (\<lambda>c. if is_lower c then char_of (charCode c - 32) else c) s"

text \<open>\<^verbatim>\<open>replace(/\s+/g, sep)\<close>: every maximal run of whitespace becomes one separator;
  the flag says whether the character before was whitespace.\<close>

fun replace_spaces :: "string \<Rightarrow> bool \<Rightarrow> string \<Rightarrow> string" where
  "replace_spaces sep in_run [] = []"
| "replace_spaces sep in_run (c # cs) =
     (if is_space c then (if in_run then [] else sep) @ replace_spaces sep True cs
      else c # replace_spaces sep False cs)"

definition sanitizeFilename :: "string \<Rightarrow> bool \<Rightarrow> string" where
  "sanitizeFilename name isKebabCase =
     (let sanitized =
            filter (\<lambda>c. is_lower c \<or> is_digit c \<or> is_space c \<or> c = CHR ''-'' \<or> c = CHR ''.'')
              (toLowerCase name)
      in take 100 (replace_spaces (if isKebabCase then ''-'' else ''_'') False sanitized))"

text \<open>Decimal digits of a number and \<^verbatim>\<open>padStart(n, '0')\<close>, for the time stamp of lines
  47 to 55.\<close>

fun digits :: "nat \<Rightarrow> string" where
  "digits n = (if n < 10 then [char_of (48 + n)] else digits (n div 10) @ [char_of (48 + n mod 10)])"

declare digits.simps [simp del]

definition padStart :: "nat \<Rightarrow> string \<Rightarrow> string" where
  "padStart n s = replicate (n - length s) CHR ''0'' @ s"

record utc_time =
  utcFullYear :: nat
  utcMonth :: nat
  utcDate :: nat
  utcHours :: nat
  utcMinutes :: nat
  utcSeconds :: nat
  utcMilliseconds :: nat

fun join :: "string \<Rightarrow> string list \<Rightarrow> string" where
  "join sep [] = []"
| "join sep [x] = x"
| "join sep (x # y # ys) = x @ sep @ join sep (y # ys)"

definition verboseTimestamp :: "utc_time \<Rightarrow> string" where
  "verboseTimestamp now =
     join ''-''
       [digits (utcFullYear now),
        padStart 2 (digits (utcMonth now + 1)),
        padStart 2 (digits (utcDate now)),
        padStart 2 (digits (utcHours now)),
        padStart 2 (digits (utcMinutes now)),
        padStart 2 (digits (utcSeconds now)),
        padStart 3 (digits (utcMilliseconds now))]"

text \<open>Paths are lists of segments below the project directory.\<close>

type_synonym path = "string list"

definition TEMP_DIR :: path where
  "TEMP_DIR = [''temp'']"

definition ARCHIVE_DIR :: path where
  "ARCHIVE_DIR = TEMP_DIR @ [''archives'']"

definition EMAILS_DIR :: path where
  "EMAILS_DIR = [''emails'']"

definition DEFAULT_CLIENTS_FILE :: path where
  "DEFAULT_CLIENTS_FILE = [''default-clients-eoa.json'']"

definition EMAIL_HTML_FILE :: "string \<Rightarrow> path" where
  "EMAIL_HTML_FILE taskName = EMAILS_DIR @ [sanitizeFilename taskName True @ ''.html'']"

definition GENERATED_URLS_FILE :: "string \<Rightarrow> path" where
  "GENERATED_URLS_FILE taskName =
     TEMP_DIR @ [''generated-preview-urls-'' @ sanitizeFilename taskName False @ ''.json'']"

definition archiveFilePath :: "string \<Rightarrow> utc_time \<Rightarrow> path" where
  "archiveFilePath taskName now =
     ARCHIVE_DIR @ [''generated-preview-urls-'' @ sanitizeFilename taskName False @ ''-''
                     @ verboseTimestamp now @ ''.json'']"

record GeneratedPreview =
  name :: string
  url :: string
  client :: string

text \<open>\<^verbatim>\<open>client.replace(/_/g, ' ').replace(/\b\w/g, char => char.toUpperCase())\<close>: the
  flag says whether the character before was a word character.\<close>

fun capitalize_words :: "bool \<Rightarrow> string \<Rightarrow> string" where
  "capitalize_words prev_word [] = []"
| "capitalize_words prev_word (c # cs) =
     (if is_word c \<and> \<not> prev_word then toUpperCase [c] @ capitalize_words True cs
      else c # capitalize_words (is_word c) cs)"

definition preview_name :: "string \<Rightarrow> string" where
  "preview_name c =
     capitalize_words False (map (\<lambda>x. if x = CHR ''_'' then CHR '' '' else x) c) @ '' Preview''"

definition generatedPreviews :: "urls \<Rightarrow> GeneratedPreview list" where
  "generatedPreviews previewUrlsMap =
     map (\<lambda>(c, u). \<lparr>name = preview_name c, url = u, client = c\<rparr>) previewUrlsMap"

text \<open>
  What globalSetup reads from outside: the environment, the files, the clock, the client
  ids read out of the default clients file (lines 68 to 70: \<^verbatim>\<open>JSON.parse\<close>, then the
  \<^verbatim>\<open>id\<close> of every entry; \<open>None\<close> when that throws), the answer of \<^verbatim>\<open>injectHtml\<close>
  (the test id, or \<open>None\<close> when it throws), the answers of the results endpoint, and
  whether a file can be written. \<^verbatim>\<open>JSON.stringify(_, null, 2)\<close> is the parameter
  \<open>stringify\<close>. Directories are not modelled.
\<close>

record world =
  env :: "string \<Rightarrow> string option"
  files :: "path \<Rightarrow> string option"
  clock :: utc_time
  client_ids :: "string \<Rightarrow> string list option"
  injectHtml :: "string \<Rightarrow> string list \<Rightarrow> string option"
  results_endpoint :: "nat \<Rightarrow> api_results option fetch_outcome"
  writable :: "path \<Rightarrow> bool"

datatype setup_error =
    HtmlFileMissing
  | ClientsFileUnreadable
  | ClientsFileMissing
  | EnvironmentIncomplete
  | ServiceInitFailed
  | PreviewFailed

datatype setup_outcome = Skipped | Failed setup_error | Finished

definition falsy :: "string option \<Rightarrow> bool" where
  "falsy v = (v = None \<or> v = Some [])"

text \<open>\<^verbatim>\<open>getEmailPreviewService\<close> of service-factory.ts together with the constructor of
  EmailOnAcidService: does it return a service?\<close>

definition getEmailPreviewService :: "string \<Rightarrow> string \<Rightarrow> string option \<Rightarrow> bool" where
  "getEmailPreviewService serviceName apiKey accountPassword =
     (if toLowerCase serviceName = ''emailonacid''
      then \<not> falsy accountPassword \<and> apiKey \<noteq> []
      else False)"

text \<open>Lines 97 to 127: the \<^verbatim>\<open>try\<close> block; the result is the outcome and the files
  afterwards.\<close>

definition write_previews ::
  "(GeneratedPreview list \<Rightarrow> string) \<Rightarrow> world \<Rightarrow> string \<Rightarrow> string \<Rightarrow> string list
     \<Rightarrow> setup_outcome \<times> (path \<Rightarrow> string option)" where
  "write_previews stringify w taskName emailHtmlContent desiredApiClients =
     (case injectHtml w emailHtmlContent desiredApiClients of
        None \<Rightarrow> (Failed PreviewFailed, files w)
      | Some test_id \<Rightarrow>
          (case fst (getPreviewUrls test_id desiredApiClients (results_endpoint w)) of
             Inl e \<Rightarrow> (Failed PreviewFailed, files w)
           | Inr previewUrlsMap \<Rightarrow>
               if \<not> writable w (GENERATED_URLS_FILE taskName)
               then (Failed PreviewFailed, files w)
               else
                 (let written = (files w)(GENERATED_URLS_FILE taskName \<mapsto>
                                    stringify (generatedPreviews previewUrlsMap))
                  in if \<not> writable w (archiveFilePath taskName (clock w))
                     then (Failed PreviewFailed, written)
                     else (Finished,
                           written(archiveFilePath taskName (clock w) \<mapsto>
                                     stringify (generatedPreviews previewUrlsMap))))))"

definition globalSetup ::
  "(GeneratedPreview list \<Rightarrow> string) \<Rightarrow> world \<Rightarrow> setup_outcome \<times> (path \<Rightarrow> string option)" where
  "globalSetup stringify w =
     (case env w ''TASK_NAME'' of
        None \<Rightarrow> (Skipped, files w)
      | Some taskName \<Rightarrow>
          if taskName = [] then (Skipped, files w)
          else
            (case files w (EMAIL_HTML_FILE taskName) of
               None \<Rightarrow> (Failed HtmlFileMissing, files w)
             | Some emailHtmlContent \<Rightarrow>
                 (case files w DEFAULT_CLIENTS_FILE of
                    None \<Rightarrow> (Failed ClientsFileMissing, files w)
                  | Some clientsConfigString \<Rightarrow>
                      (case client_ids w clientsConfigString of
                         None \<Rightarrow> (Failed ClientsFileUnreadable, files w)
                       | Some desiredApiClients \<Rightarrow>
                           (case map_option toLowerCase (env w ''EMAIL_PREVIEW_SERVICE'') of
                              None \<Rightarrow> (Failed EnvironmentIncomplete, files w)
                            | Some serviceToUse \<Rightarrow>
                                (case env w (toUpperCase serviceToUse @ ''_API_KEY'') of
                                   None \<Rightarrow> (Failed EnvironmentIncomplete, files w)
                                 | Some apiKey \<Rightarrow>
                                     if serviceToUse = [] \<or> apiKey = []
                                        \<or> falsy (env w ''EMAILONACID_ACCOUNT_PASSWORD'')
                                     then (Failed EnvironmentIncomplete, files w)
                                     else if \<not> getEmailPreviewService serviceToUse apiKey
                                                 (env w ''EMAILONACID_ACCOUNT_PASSWORD'')
                                     then (Failed ServiceInitFailed, files w)
                                     else write_previews stringify w taskName emailHtmlContent
                                            desiredApiClients))))))"

section \<open>The Gmail extractor: getHtmlFromPayload\<close>

text \<open>
  A \<^verbatim>\<open>gmail_v1.Schema$MessagePart\<close>: \<open>None\<close> stands for a field that is absent or
  \<^verbatim>\<open>null\<close>. A part without \<^verbatim>\<open>parts\<close> and a part with an empty \<^verbatim>\<open>parts\<close> array behave
  alike here, so \<open>parts\<close> is a list. \<open>decode\<close> is
  \<^verbatim>\<open>Buffer.from(_, 'base64').toString('utf8')\<close>.
\<close>

datatype part_body = Body (body_data: "string option")

datatype message_part =
  MessagePart (mimeType: "string option") (body: "part_body option") (parts: "message_part list")

fun has_data :: "part_body option \<Rightarrow> string option" where
  "has_data None = None"
| "has_data (Some (Body None)) = None"
| "has_data (Some (Body (Some d))) = (if d = [] then None else Some d)"

fun getHtmlFromPayload :: "(string \<Rightarrow> string) \<Rightarrow> message_part \<Rightarrow> string option"
  and search_parts :: "(string \<Rightarrow> string) \<Rightarrow> message_part list \<Rightarrow> string option" where
  "getHtmlFromPayload decode (MessagePart mt b ps) =
     (if mt = Some ''text/html'' \<and> has_data b \<noteq> None then Some (decode (the (has_data b)))
      else search_parts decode ps)"
| "search_parts decode [] = None"
| "search_parts decode (part # rest) =
     (case getHtmlFromPayload decode part of
        None \<Rightarrow> search_parts decode rest
      | Some html \<Rightarrow> if html \<noteq> [] then Some html else search_parts decode rest)"

text \<open>
  The decoder of the platform, for the examples: characters outside the two base64
  alphabets are skipped, decoding ends at the first \<^verbatim>\<open>=\<close>, and a string is the list of
  its UTF-8 bytes.
\<close>

definition base64_alphabet :: string where
  "base64_alphabet = ''ABCDEFGHIJKLMNOPQRSTUVWXYZabcdefghijklmnopqrstuvwxyz0123456789+/''"

fun index_of :: "char \<Rightarrow> string \<Rightarrow> nat option" where
  "index_of c [] = None"
| "index_of c (x # xs) = (if c = x then Some 0 else map_option Suc (index_of c xs))"

definition sextet :: "char \<Rightarrow> nat option" where
  "sextet c = (if c = CHR ''-'' then Some 62 else if c = CHR ''_'' then Some 63
               else index_of c base64_alphabet)"

fun sextets :: "string \<Rightarrow> nat list" where
  "sextets [] = []"
| "sextets (c # cs) =
     (if c = CHR ''='' then []
      else case sextet c of None \<Rightarrow> sextets cs | Some v \<Rightarrow> v # sextets cs)"

fun octets :: "nat list \<Rightarrow> nat list" where
  "octets (a # b # c # d # rest) =
     (a * 4 + b div 16) # ((b mod 16) * 16 + c div 4) # ((c mod 4) * 64 + d) # octets rest"
| "octets [a, b, c] = [a * 4 + b div 16, (b mod 16) * 16 + c div 4]"
| "octets [a, b] = [a * 4 + b div 16]"
| "octets xs = []"

definition base64_utf8 :: "string \<Rightarrow> string" where
  "base64_utf8 s = map char_of (octets (sextets s))"

text \<open>
  The claim about the extractor, in its own words: the parts in depth-first pre-order, a
  part being a candidate when its type is text/html and its body data is present, and the
  claimed result, the decoded data of the first candidate.
\<close>

fun preorder :: "message_part \<Rightarrow> message_part list"
  and preorder_list :: "message_part list \<Rightarrow> message_part list" where
  "preorder (MessagePart mt b ps) = MessagePart mt b ps # preorder_list ps"
| "preorder_list [] = []"
| "preorder_list (part # rest) = preorder part @ preorder_list rest"

fun data_of :: "message_part \<Rightarrow> string option" where
  "data_of (MessagePart mt None ps) = None"
| "data_of (MessagePart mt (Some (Body d)) ps) = d"

definition html_candidate :: "message_part \<Rightarrow> bool" where
  "html_candidate q = (mimeType q = Some ''text/html'' \<and> data_of q \<noteq> None)"

definition first_html :: "(string \<Rightarrow> string) \<Rightarrow> message_part list \<Rightarrow> string option" where
  "first_html decode qs =
     (case filter html_candidate qs of
        [] \<Rightarrow> None
      | q # rest \<Rightarrow> map_option decode (data_of q))"

text \<open>
  The proviso under which the claimed result is the result: the first candidate, if there
  is one, carries non-empty data, and unless it is the payload itself that data decodes to
  a non-empty string.
\<close>

definition first_candidate_usable :: "(string \<Rightarrow> string) \<Rightarrow> message_part \<Rightarrow> bool" where
  "first_candidate_usable decode payload =
     (case filter html_candidate (preorder payload) of
        [] \<Rightarrow> True
      | q # rest \<Rightarrow>
          (case data_of q of
             None \<Rightarrow> False
           | Some d \<Rightarrow> d \<noteq> [] \<and> (html_candidate payload \<or> decode d \<noteq> [])))"

section \<open>Vocabulary of the claims about errors\<close>

text \<open>A fetch error other than the authentication failure, and the warning the
  \<^verbatim>\<open>catch\<close> block prints for it.\<close>

definition transient :: "'a fetch_outcome \<Rightarrow> bool" where
  "transient outcome =
     (case outcome of Response data \<Rightarrow> False | HttpError status \<Rightarrow> status \<noteq> 401
      | NetworkError \<Rightarrow> True)"

definition logged_warning :: "'a fetch_outcome \<Rightarrow> message" where
  "logged_warning outcome =
     (case outcome of
        HttpError status \<Rightarrow> if status = 404 then NotFoundYet else UnexpectedStatus status
      | _ \<Rightarrow> NetworkOrUnexpected)"

section \<open>Vocabulary of the claims about getPreviewUrls\<close>

text \<open>The three classes of the claim about classification, by the status alone, and
  the result payload of a complete client: its default screenshot URL when that is a
  non-empty string.\<close>

datatype client_class = Complete | FailedOrBounced | Pending

definition classify :: "json \<Rightarrow> client_class" where
  "classify clientResult =
     (if field clientResult ''status'' = Some (JStr ''Complete'') then Complete
      else if field clientResult ''status'' = Some (JStr ''Failed'')
            \<or> field clientResult ''status'' = Some (JStr ''Bounced'') then FailedOrBounced
      else Pending)"

definition default_url :: "json \<Rightarrow> string option" where
  "default_url clientResult =
     (case screenshots_default clientResult of
        Some (JStr u) \<Rightarrow> if u = [] then None else Some u
      | _ \<Rightarrow> None)"



text \<open>\<open>u\<close> is the default screenshot URL of client \<open>c\<close>, reported complete, in a
  response.\<close>

definition complete_url :: "api_results \<Rightarrow> string \<Rightarrow> string \<Rightarrow> bool" where
  "complete_url currentApiResults c u =
     (case map_of currentApiResults c of
        None \<Rightarrow> False
      | Some clientResult \<Rightarrow>
          classify clientResult = Complete \<and> default_url clientResult = Some u)"

text \<open>An attempt after which the loop goes on: an error other than 401, or a response in
  which some monitored client is not final.\<close>

definition keeps_polling :: "string list \<Rightarrow> api_results option fetch_outcome \<Rightarrow> bool" where
  "keeps_polling emailClients outcome =
     (case outcome of
        Response data \<Rightarrow>
          \<not> list_all (is_final (data_or_empty data))
               (clientsToMonitor emailClients (data_or_empty data))
      | HttpError status \<Rightarrow> status \<noteq> 401
      | NetworkError \<Rightarrow> True)"

fun is_fetch :: "event \<Rightarrow> bool" where
  "is_fetch (Fetch n) = True"
| "is_fetch e = False"





section \<open>Example inputs\<close>

definition client_complete :: "string \<Rightarrow> json" where
  "client_complete u =
     JObj [(''status'', JStr ''Complete''), (''screenshots'', JObj [(''default'', JStr u)])]"


definition client_processing :: json where
  "client_processing = JObj [(''status'', JStr ''Processing'')]"

definition outlook_done :: "api_results option fetch_outcome" where
  "outlook_done = Response (Some [(''outlook'', client_complete ''https://preview/outlook.png'')])"

definition one_complete_result :: "json fetch_outcome" where
  "one_complete_result = Response (JObj [(''results'', JArr [JObj [(''status'', JStr ''complete'')]])])"

definition html_part :: "string \<Rightarrow> message_part" where
  "html_part d = MessagePart (Some ''text/html'') (Some (Body (Some d))) []"

definition two_html_parts :: message_part where
  "two_html_parts =
     MessagePart (Some ''multipart/alternative'') None [html_part ''='', html_part ''PGI+aGk8L2I+'']"

definition plain_and_html :: message_part where
  "plain_and_html =
     MessagePart (Some ''multipart/alternative'') None
       [MessagePart (Some ''text/plain'') (Some (Body (Some ''aGk=''))) [],
        html_part ''PGI+aGk8L2I+'']"

definition spring_sale_world :: world where
  "spring_sale_world =
     \<lparr>env = [''TASK_NAME'' \<mapsto> ''Spring Sale'', ''EMAIL_PREVIEW_SERVICE'' \<mapsto> ''EmailOnAcid'',
             ''EMAILONACID_API_KEY'' \<mapsto> ''key'', ''EMAILONACID_ACCOUNT_PASSWORD'' \<mapsto> ''secret''],
      files = [[''emails'', ''spring-sale.html''] \<mapsto> ''<html></html>'',
               [''default-clients-eoa.json''] \<mapsto> ''{}''],
      clock = \<lparr>utcFullYear = 2025, utcMonth = 6, utcDate = 23, utcHours = 20, utcMinutes = 58,
                utcSeconds = 0, utcMilliseconds = 7\<rparr>,
      client_ids = (\<lambda>text. Some [''outlook'']),
      injectHtml = (\<lambda>html clients. Some ''job''),
      results_endpoint = (\<lambda>n. outlook_done),
      writable = (\<lambda>p. True)\<rparr>"

definition names_and_urls :: "GeneratedPreview list \<Rightarrow> string" where
  "names_and_urls previews = concat (map (\<lambda>p. name p @ '': '' @ url p @ ''; '') previews)"

definition empty_results :: "json fetch_outcome" where
  "empty_results = Response (JObj [(''results'', JArr [])])"

definition changing_keys :: "nat \<Rightarrow> api_results option fetch_outcome" where
  "changing_keys n =
     (if n = 0 then Response (Some [(''a'', client_processing)])
      else Response (Some [(''b'', client_complete ''https://preview/b.png'')]))"

definition outlook_only :: "nat \<Rightarrow> api_results option fetch_outcome" where
  "outlook_only n =
     Response (Some [(''outlook'', client_complete ''https://preview/outlook.png''),
                     (''gmail'', client_processing)])"

definition outlook_then_both :: "nat \<Rightarrow> api_results option fetch_outcome" where
  "outlook_then_both n =
     (if n = 0 then Response (Some [(''outlook'', client_complete ''https://preview/outlook.png'')])
      else Response (Some [(''outlook'', client_complete ''https://preview/outlook.png''),
                           (''gmail'', client_complete ''https://preview/gmail.png'')]))"


definition html_then_empty :: message_part where
  "html_then_empty =
     MessagePart (Some ''multipart/alternative'') None [html_part ''PGI+aGk8L2I+'', html_part ''='']"


section \<open>Properties of the two polling loops\<close>

subsection \<open>The loop of getPreviewUrls\<close>

lemma prepend_snd: "snd (prepend evs p) = evs @ snd p"
  by (cases p) simp


lemma prepend_prepend: "prepend xs (prepend ys p) = prepend (xs @ ys) p"
  by (cases p) simp

lemma prepend_Nil: "prepend [] p = p"
  by (cases p) simp

lemma poll_attempt_no_fetch:
  "poll_attempt cl u out = Stop r evs \<Longrightarrow> Fetch k \<notin> set evs"
  "poll_attempt cl u out = Next u' fl evs \<Longrightarrow> Fetch k \<notin> set evs"
  by (auto simp: poll_attempt_def Let_def split: fetch_outcome.splits if_splits prod.splits)

lemma wait_events_no_fetch: "Fetch k \<notin> set (wait_events a fl)"
  by (simp add: wait_events_def)

lemma poll_loop_unfold:
  "a < MAX_POLLING_ATTEMPTS \<Longrightarrow> poll_loop fetch cl a u =
     (case poll_attempt cl u (fetch a) of
           Stop r evs \<Rightarrow> (r, Fetch a # evs)
         | Next u' fl evs \<Rightarrow>
             prepend (Fetch a # evs @ wait_events a fl) (poll_loop fetch cl (Suc a) u'))"
  by (subst poll_loop.simps) simp

lemma poll_loop_reach:
  "Fetch k \<in> set (snd (poll_loop fetch cl a u)) \<Longrightarrow>
   \<exists>pre u'. a \<le> k \<and> k < MAX_POLLING_ATTEMPTS
      \<and> poll_loop fetch cl a u = prepend pre (poll_loop fetch cl k u')
      \<and> (\<forall>j. Fetch j \<in> set pre \<longrightarrow> j < k)"
proof (induction fetch cl a u rule: poll_loop.induct)
  case (1 fetch cl a u)
  show ?case
  proof (cases "a < MAX_POLLING_ATTEMPTS")
    case False
    with "1.prems" show ?thesis by (subst (asm) poll_loop.simps) simp
  next
    case lt: True
    show ?thesis
    proof (cases "k = a")
      case True
      have "poll_loop fetch cl a u = prepend [] (poll_loop fetch cl k u)"
        using True by (simp add: prepend_Nil)
      with True lt show ?thesis by fastforce
    next
      case ne: False
      show ?thesis
      proof (cases "poll_attempt cl u (fetch a)")
        case (Stop r evs)
        with "1.prems" lt ne poll_attempt_no_fetch(1)[OF Stop] show ?thesis
          by (auto simp: poll_loop_unfold)
      next
        case (Next u' fl evs)
        have eq: "poll_loop fetch cl a u =
            prepend (Fetch a # evs @ wait_events a fl) (poll_loop fetch cl (Suc a) u')"
          using lt Next by (simp add: poll_loop_unfold)
        have "Fetch k \<in> set (snd (poll_loop fetch cl (Suc a) u'))"
          using "1.prems" ne poll_attempt_no_fetch(2)[OF Next] wait_events_no_fetch
          by (auto simp: eq prepend_snd)
        from "1.IH"[OF lt Next this] obtain pre u'' where
          p: "Suc a \<le> k" "k < MAX_POLLING_ATTEMPTS"
             "poll_loop fetch cl (Suc a) u' = prepend pre (poll_loop fetch cl k u'')"
             "\<forall>j. Fetch j \<in> set pre \<longrightarrow> j < k"
          by blast
        have "poll_loop fetch cl a u =
            prepend ((Fetch a # evs @ wait_events a fl) @ pre) (poll_loop fetch cl k u'')"
          by (simp only: eq p(3) prepend_prepend)
        moreover have "\<forall>j. Fetch j \<in> set ((Fetch a # evs @ wait_events a fl) @ pre) \<longrightarrow> j < k"
          using p(1,4) poll_attempt_no_fetch(2)[OF Next] wait_events_no_fetch by auto
        ultimately show ?thesis using p(1,2) by (intro exI conjI) auto
      qed
    qed
  qed
qed

lemma poll_loop_starts:
  assumes "a < MAX_POLLING_ATTEMPTS"
  shows "\<exists>r rest. poll_loop fetch cl a u = (r, Fetch a # rest)"
proof (cases "poll_attempt cl u (fetch a)")
  case (Stop r evs)
  then show ?thesis by (simp add: poll_loop_unfold[OF assms])
next
  case (Next u' fl evs)
  then show ?thesis
    by (cases "poll_loop fetch cl (Suc a) u'") (simp add: poll_loop_unfold[OF assms])
qed

lemma closing_summary_not_Fetch: "Fetch k \<noteq> closing_summary cl u"
  by (simp add: closing_summary_def)

lemma getPreviewUrls_at:
  assumes "Fetch k \<in> set (snd (getPreviewUrls t cl f))"
  shows "\<exists>pre u. k < MAX_POLLING_ATTEMPTS \<and> (\<forall>j. Fetch j \<in> set pre \<longrightarrow> j < k)
     \<and> (\<forall>r evs. poll_loop f cl k u = (r, evs) \<longrightarrow>
           getPreviewUrls t cl f =
             (r, pre @ evs @ (case r of Inl e \<Rightarrow> [] | Inr m \<Rightarrow> [closing_summary cl m])))"
proof -
  let ?warned = "if cl = [] then [Console Warning NoClientsRequested] else []"
  obtain r0 evs0 where l0: "poll_loop f cl 0 [] = (r0, evs0)" by (cases "poll_loop f cl 0 []")
  have t: "t \<noteq> []" using assms by (auto simp: getPreviewUrls_def)
  have g: "getPreviewUrls t cl f =
      (r0, ?warned @ evs0 @ (case r0 of Inl e \<Rightarrow> [] | Inr m \<Rightarrow> [closing_summary cl m]))"
    using t l0 by (simp add: getPreviewUrls_def split: sum.splits)
  have "Fetch k \<in> set evs0"
    using assms closing_summary_not_Fetch[of k cl] unfolding g
    by (cases r0) (auto split: if_splits)
  then have "Fetch k \<in> set (snd (poll_loop f cl 0 []))" by (simp add: l0)
  from poll_loop_reach[OF this] obtain pre u where
    p: "k < MAX_POLLING_ATTEMPTS" "poll_loop f cl 0 [] = prepend pre (poll_loop f cl k u)"
       "\<forall>j. Fetch j \<in> set pre \<longrightarrow> j < k" by blast
  have "\<forall>r evs. poll_loop f cl k u = (r, evs) \<longrightarrow>
           getPreviewUrls t cl f =
             (r, (?warned @ pre) @ evs @ (case r of Inl e \<Rightarrow> [] | Inr m \<Rightarrow> [closing_summary cl m]))"
    using p(2) l0 g by auto
  moreover have "\<forall>j. Fetch j \<in> set (?warned @ pre) \<longrightarrow> j < k" using p(3) by auto
  ultimately show ?thesis using p(1) by blast
qed

lemma length_filter_all: "(length (filter P xs) = length xs) = (\<forall>x\<in>set xs. P x)"
  by (metis filter_True length_filter_less less_irrefl)

lemma poll_loop_401:
  "a < MAX_POLLING_ATTEMPTS \<Longrightarrow> fetch a = HttpError 401 \<Longrightarrow>
   poll_loop fetch cl a u = (Inl (AxiosError 401), [Fetch a, Console Error AuthFailed])"
  by (simp add: poll_loop_unfold poll_attempt_def)

lemma poll_loop_transient:
  "a < MAX_POLLING_ATTEMPTS \<Longrightarrow> transient (fetch a) \<Longrightarrow>
   poll_loop fetch cl a u =
     prepend (Fetch a # Console Warning (logged_warning (fetch a)) # wait_events a False)
       (poll_loop fetch cl (Suc a) u)"
  by (cases "fetch a")
     (simp_all add: poll_loop_unfold poll_attempt_def transient_def logged_warning_def)

lemma poll_loop_final:
  assumes "a < MAX_POLLING_ATTEMPTS" "fetch a = Response data"
    "\<forall>c\<in>set (clientsToMonitor cl (data_or_empty data)). is_final (data_or_empty data) c"
  shows "\<exists>m. poll_loop fetch cl a u = (Inr m, [Fetch a, Console Info AllFinal])"
  using assms
  by (simp add: poll_loop_unfold poll_attempt_def Let_def length_filter_all split: prod.splits)

subsection \<open>The loop of the results script\<close>

lemma check_results_no_fetch: "Fetch k \<notin> set (snd (check_results a xs n))"
  by (simp add: check_results_def Let_def)

lemma script_attempt_no_fetch': "Fetch k \<notin> set (snd (script_attempt a out))"
proof (cases out)
  case (Response data)
  then show ?thesis
    by (cases "results_of data") (simp_all add: script_attempt_def check_results_no_fetch)
qed (simp_all add: script_attempt_def)

lemma script_attempt_no_fetch: "script_attempt a out = (st, evs) \<Longrightarrow> Fetch k \<notin> set evs"
  using script_attempt_no_fetch'[of k a out] by simp

lemma script_loop_unfold:
  "a < MAX_POLLING_ATTEMPTS \<Longrightarrow> script_loop fetch a fr =
     (case script_attempt a (fetch a) of
           (Break, evs) \<Rightarrow> (Inr (received fr (fetch a)), Fetch a # evs)
         | (Exit code, evs) \<Rightarrow> (Inl code, Fetch a # evs)
         | (Continue fl, evs) \<Rightarrow>
             prepend (Fetch a # evs @ wait_events a fl)
               (script_loop fetch (Suc a) (received fr (fetch a))))"
  by (subst script_loop.simps) simp

lemma script_loop_reach:
  "Fetch k \<in> set (snd (script_loop fetch a fr)) \<Longrightarrow>
   \<exists>pre fr'. a \<le> k \<and> k < MAX_POLLING_ATTEMPTS
      \<and> script_loop fetch a fr = prepend pre (script_loop fetch k fr')
      \<and> (\<forall>j. Fetch j \<in> set pre \<longrightarrow> j < k)"
proof (induction fetch a fr rule: script_loop.induct)
  case (1 fetch a fr)
  show ?case
  proof (cases "a < MAX_POLLING_ATTEMPTS")
    case False
    with "1.prems" show ?thesis by (subst (asm) script_loop.simps) simp
  next
    case lt: True
    show ?thesis
    proof (cases "k = a")
      case True
      have "script_loop fetch a fr = prepend [] (script_loop fetch k fr)"
        using True by (simp add: prepend_Nil)
      with True lt show ?thesis by fastforce
    next
      case ne: False
      obtain st evs where sa: "script_attempt a (fetch a) = (st, evs)"
        by (cases "script_attempt a (fetch a)")
      note nf = script_attempt_no_fetch[OF sa]
      show ?thesis
      proof (cases st)
        case Break
        with "1.prems" lt ne nf sa show ?thesis by (auto simp: script_loop_unfold)
      next
        case (Exit c)
        with "1.prems" lt ne nf sa show ?thesis by (auto simp: script_loop_unfold)
      next
        case (Continue fl)
        let ?fr = "received fr (fetch a)"
        have eq: "script_loop fetch a fr =
            prepend (Fetch a # evs @ wait_events a fl) (script_loop fetch (Suc a) ?fr)"
          using lt sa Continue by (simp add: script_loop_unfold)
        have "Fetch k \<in> set (snd (script_loop fetch (Suc a) ?fr))"
          using "1.prems" ne nf wait_events_no_fetch
          by (auto simp: eq prepend_snd)
        from "1.IH"[OF lt sa[symmetric] Continue this] obtain pre fr'' where
          p: "Suc a \<le> k" "k < MAX_POLLING_ATTEMPTS"
             "script_loop fetch (Suc a) ?fr = prepend pre (script_loop fetch k fr'')"
             "\<forall>j. Fetch j \<in> set pre \<longrightarrow> j < k"
          by blast
        have "script_loop fetch a fr =
            prepend ((Fetch a # evs @ wait_events a fl) @ pre) (script_loop fetch k fr'')"
          by (simp only: eq p(3) prepend_prepend)
        moreover have "\<forall>j. Fetch j \<in> set ((Fetch a # evs @ wait_events a fl) @ pre) \<longrightarrow> j < k"
          using p(1,4) nf wait_events_no_fetch by auto
        ultimately show ?thesis using p(1,2) by (intro exI conjI) auto
      qed
    qed
  qed
qed

lemma script_loop_starts:
  assumes "a < MAX_POLLING_ATTEMPTS"
  shows "\<exists>r rest. script_loop fetch a fr = (r, Fetch a # rest)"
proof -
  obtain st evs where sa: "script_attempt a (fetch a) = (st, evs)"
    by (cases "script_attempt a (fetch a)")
  show ?thesis
    by (cases st; cases "script_loop fetch (Suc a) (received fr (fetch a))")
       (simp_all add: script_loop_unfold[OF assms] sa)
qed

lemma save_response_prepend:
  "save_response w (prepend pre p) = prepend pre (save_response w p)"
  by (cases "(w, p)" rule: save_response.cases) auto

lemma save_response_Fetch:
  "Fetch k \<in> set (snd (save_response w p)) \<Longrightarrow> Fetch k \<in> set (snd p)"
  by (cases "(w, p)" rule: save_response.cases) (auto split: if_splits)

lemma script_at:
  assumes "Fetch k \<in> set (snd (getFullEmailOnAcidResults ak pw f w))"
  shows "\<exists>pre fr. k < MAX_POLLING_ATTEMPTS \<and> (\<forall>j. Fetch j \<in> set pre \<longrightarrow> j < k)
     \<and> getFullEmailOnAcidResults ak pw f w = prepend pre (save_response w (script_loop f k fr))"
proof -
  have g: "getFullEmailOnAcidResults ak pw f w = save_response w (script_loop f 0 None)"
    using assms by (auto simp: getFullEmailOnAcidResults_def split: if_splits)
  with assms have "Fetch k \<in> set (snd (script_loop f 0 None))"
    by (simp add: save_response_Fetch)
  from script_loop_reach[OF this] obtain pre fr where
    p: "k < MAX_POLLING_ATTEMPTS" "script_loop f 0 None = prepend pre (script_loop f k fr)"
       "\<forall>j. Fetch j \<in> set pre \<longrightarrow> j < k" by blast
  show ?thesis using p g by (auto simp: save_response_prepend)
qed

lemma script_loop_401:
  "a < MAX_POLLING_ATTEMPTS \<Longrightarrow> fetch a = HttpError 401 \<Longrightarrow>
   script_loop fetch a fr = (Inl 1, [Fetch a, Console Error AuthFailed])"
  by (simp add: script_loop_unfold script_attempt_def)

lemma script_loop_transient:
  "a < MAX_POLLING_ATTEMPTS \<Longrightarrow> transient (fetch a) \<Longrightarrow>
   script_loop fetch a fr =
     prepend (Fetch a # Console Warning (logged_warning (fetch a)) # wait_events a False)
       (script_loop fetch (Suc a) fr)"
  by (cases "fetch a")
     (simp_all add: script_loop_unfold script_attempt_def transient_def logged_warning_def received_def)

lemma foldl_count_client:
  "foldl count_client b xs = (b \<and> (\<forall>x\<in>set xs. field x ''status'' \<noteq> Some (JStr ''pending'')))"
  by (induction xs arbitrary: b) auto

lemma script_loop_final:
  assumes "a < MAX_POLLING_ATTEMPTS" "fetch a = Response data" "results_of data = JArr xs"
    "xs \<noteq> []" "\<forall>x\<in>set xs. field x ''status'' \<noteq> Some (JStr ''pending'')"
  shows "script_loop fetch a fr = (Inr (Some data), [Fetch a, Console Info AllFinal])"
  using assms
  by (simp add: script_loop_unfold script_attempt_def check_results_def statuses_final_def foldl_count_client received_def)

lemma wait_events_False:
  "wait_events k False = (if Suc k < MAX_POLLING_ATTEMPTS then [Sleep POLLING_INTERVAL_MS] else [])"
  by (auto simp: wait_events_def)

lemma poll_loop_past: "\<not> a < MAX_POLLING_ATTEMPTS \<Longrightarrow> poll_loop fetch cl a u = (Inr u, [])"
  by (subst poll_loop.simps) simp

lemma script_loop_past: "\<not> a < MAX_POLLING_ATTEMPTS \<Longrightarrow> script_loop fetch a fr = (Inr fr, [])"
  by (subst script_loop.simps) simp

subsection \<open>What an attempt does to the mapping and to the flag\<close>

lemma classify_Complete_truthy: "classify r = Complete \<Longrightarrow> truthy r"
  by (cases r) (simp_all add: classify_def)

lemma process_client_present:
  assumes "map_of res c = Some r" "truthy r"
  shows "process_client res (urls, fl) c =
     (case classify r of
        Complete \<Rightarrow> (case default_url r of
                       Some u \<Rightarrow> (store_url c u urls, fl)
                     | None \<Rightarrow> (urls, False))
      | FailedOrBounced \<Rightarrow> (urls, fl)
      | Pending \<Rightarrow> (urls, False))"
proof (cases "field r ''status'' = Some (JStr ''Complete'')")
  case True
  then have c: "classify r = Complete" by (simp add: classify_def)
  show ?thesis
  proof (cases "default_url r")
    case None
    with assms True c show ?thesis
      by (auto simp: default_url_def split: option.splits json.splits if_splits)
  next
    case (Some u)
    then have sd: "screenshots_default r = Some (JStr u)" "u \<noteq> []"
      by (auto simp: default_url_def split: option.splits json.splits if_splits)
    show ?thesis
    proof (cases "map_of urls c = Some u")
      case same: True
      then have "store_url c u urls = urls" by (simp add: store_url_def update_triv)
      with assms True c Some sd same show ?thesis by simp
    next
      case False
      with assms True c Some sd show ?thesis by simp
    qed
  qed
next
  case False
  with assms show ?thesis by (simp add: classify_def)
qed


lemma process_client_fst:
  "fst (process_client res (urls, fl) c) =
     (case map_of res c of
        None \<Rightarrow> urls
      | Some r \<Rightarrow> if classify r = Complete
                  then (case default_url r of Some u \<Rightarrow> store_url c u urls | None \<Rightarrow> urls)
                  else urls)"
proof (cases "map_of res c")
  case None
  then show ?thesis by simp
next
  case (Some r)
  show ?thesis
  proof (cases "truthy r")
    case True
    show ?thesis
      unfolding process_client_present[OF Some True] Some
      by (cases "classify r") (simp_all split: option.splits)
  next
    case False
    with classify_Complete_truthy[of r] have "classify r \<noteq> Complete" by blast
    with Some False show ?thesis by simp
  qed
qed

lemma process_client_snd_False: "snd (process_client res (urls, False) c) = False"
  by (auto split: option.splits json.splits)

lemma process_client_not_final:
  "\<not> is_final res c \<Longrightarrow> snd (process_client res (urls, fl) c) = False"
  by (auto simp: is_final_def split: option.splits json.splits)

lemma process_client_sourced:
  assumes "map_of (fst (process_client res (urls, fl) c)) k = Some v"
  shows "map_of urls k = Some v \<or> (k = c \<and> complete_url res c v)"
  using assms unfolding process_client_fst
  by (auto simp: complete_url_def store_url_def update_conv' split: option.splits if_splits)

lemma process_client_kept:
  assumes "map_of urls k = Some v"
  shows "\<exists>v'. map_of (fst (process_client res (urls, fl) c)) k = Some v'
             \<and> (v' = v \<or> (k = c \<and> complete_url res c v'))"
  using assms unfolding process_client_fst
  by (auto simp: complete_url_def store_url_def update_conv' split: option.splits if_splits)

lemma process_client_distinct:
  "distinct (map fst urls) \<Longrightarrow> distinct (map fst (fst (process_client res (urls, fl) c)))"
  unfolding process_client_fst
  by (auto simp: store_url_def distinct_update split: option.splits)

lemma foldl_sourced:
  "map_of (fst (foldl (process_client res) (urls, fl) cs)) k = Some v \<Longrightarrow>
   map_of urls k = Some v \<or> (k \<in> set cs \<and> complete_url res k v)"
proof (induction cs arbitrary: urls fl)
  case Nil
  then show ?case by simp
next
  case (Cons c cs)
  obtain u' fl' where st: "process_client res (urls, fl) c = (u', fl')"
    by (cases "process_client res (urls, fl) c")
  with Cons.prems have "map_of (fst (foldl (process_client res) (u', fl') cs)) k = Some v"
    by simp
  from Cons.IH[OF this] show ?case
  proof
    assume "map_of u' k = Some v"
    with st process_client_sourced[of res urls fl c k v] show ?thesis by auto
  next
    assume "k \<in> set cs \<and> complete_url res k v"
    then show ?thesis by simp
  qed
qed

lemma foldl_kept:
  "map_of urls k = Some v \<Longrightarrow>
   \<exists>v'. map_of (fst (foldl (process_client res) (urls, fl) cs)) k = Some v'
        \<and> (v' = v \<or> (k \<in> set cs \<and> complete_url res k v'))"
proof (induction cs arbitrary: urls fl v)
  case Nil
  then show ?case by simp
next
  case (Cons c cs)
  obtain u' fl' where st: "process_client res (urls, fl) c = (u', fl')"
    by (cases "process_client res (urls, fl) c")
  from process_client_kept[OF Cons.prems, of res fl c] st obtain v1 where
    v1: "map_of u' k = Some v1" "v1 = v \<or> (k = c \<and> complete_url res c v1)" by auto
  from Cons.IH[OF v1(1), of fl'] obtain v' where
    v': "map_of (fst (foldl (process_client res) (u', fl') cs)) k = Some v'"
        "v' = v1 \<or> (k \<in> set cs \<and> complete_url res k v')" by blast
  from v1(2) v'(2) have "v' = v \<or> (k \<in> set (c # cs) \<and> complete_url res k v')" by auto
  with v'(1) st show ?case by auto
qed

lemma foldl_distinct:
  "distinct (map fst urls) \<Longrightarrow>
   distinct (map fst (fst (foldl (process_client res) (urls, fl) cs)))"
proof (induction cs arbitrary: urls fl)
  case Nil
  then show ?case by simp
next
  case (Cons c cs)
  obtain u' fl' where st: "process_client res (urls, fl) c = (u', fl')"
    by (cases "process_client res (urls, fl) c")
  with process_client_distinct[OF Cons.prems, of res fl c] have "distinct (map fst u')" by simp
  from Cons.IH[OF this, of fl'] st show ?case by simp
qed

lemma foldl_flag_False:
  "snd (foldl (process_client res) (urls, False) cs) = False"
proof (induction cs arbitrary: urls)
  case Nil
  then show ?case by simp
next
  case (Cons c cs)
  obtain u' fl' where st: "process_client res (urls, False) c = (u', fl')"
    by (cases "process_client res (urls, False) c")
  with process_client_snd_False[of res urls c] have "fl' = False" by simp
  with st Cons.IH[of u'] show ?case by simp
qed

lemma foldl_not_final:
  "c \<in> set cs \<Longrightarrow> \<not> is_final res c \<Longrightarrow>
   snd (foldl (process_client res) (urls, fl) cs) = False"
proof (induction cs arbitrary: urls fl)
  case Nil
  then show ?case by simp
next
  case (Cons x cs)
  obtain u' fl' where st: "process_client res (urls, fl) x = (u', fl')"
    by (cases "process_client res (urls, fl) x")
  show ?case
  proof (cases "x = c")
    case True
    with st process_client_not_final[OF Cons.prems(2), of urls fl] have "fl' = False" by simp
    with st foldl_flag_False[of res u' cs] show ?thesis by simp
  next
    case False
    with Cons.prems have "c \<in> set cs" by simp
    from Cons.IH[OF this Cons.prems(2), of u' fl'] st show ?thesis by simp
  qed
qed

lemma poll_attempt_keeps:
  assumes "keeps_polling cl out"
  shows "\<exists>evs. poll_attempt cl u out =
     Next (case out of
             Response d \<Rightarrow> fst (check_clients (clientsToMonitor cl (data_or_empty d)) u
                                  (data_or_empty d))
           | _ \<Rightarrow> u) False evs
     \<and> (\<forall>d. out = Response d \<longrightarrow> evs = [])"
proof (cases out)
  case (Response d)
  let ?res = "data_or_empty d"
  let ?mon = "clientsToMonitor cl ?res"
  from assms Response obtain c where c: "c \<in> set ?mon" "\<not> is_final ?res c"
    by (auto simp: keeps_polling_def list_all_iff)
  then have fl: "snd (check_clients ?mon u ?res) = False"
    by (simp add: check_clients_def foldl_not_final)
  from c have "length (filter (is_final ?res) ?mon) \<noteq> length ?mon"
    by (auto simp: length_filter_all)
  with Response fl show ?thesis
    by (auto simp: poll_attempt_def Let_def split: prod.splits)
next
  case (HttpError s)
  with assms show ?thesis by (simp add: poll_attempt_def keeps_polling_def)
next
  case NetworkError
  then show ?thesis by (simp add: poll_attempt_def)
qed

lemma poll_attempt_stops:
  assumes "\<not> keeps_polling cl out"
  shows "\<exists>r evs. poll_attempt cl u out = Stop r evs"
proof (cases out)
  case (Response d)
  with assms show ?thesis
    by (auto simp: poll_attempt_def keeps_polling_def Let_def length_filter_all list_all_iff
        split: prod.splits)
next
  case (HttpError s)
  with assms show ?thesis by (simp add: poll_attempt_def keeps_polling_def)
next
  case NetworkError
  with assms show ?thesis by (simp add: keeps_polling_def)
qed

lemma poll_attempt_Next_False:
  "poll_attempt cl u out = Next u' fl evs \<Longrightarrow> fl = False"
  using poll_attempt_keeps[of cl out u] poll_attempt_stops[of cl out u]
  by (cases "keeps_polling cl out") auto

lemma check_clients_sourced:
  "map_of (fst (check_clients mon u res)) k = Some v \<Longrightarrow>
   map_of u k = Some v \<or> (k \<in> set mon \<and> complete_url res k v)"
  unfolding check_clients_def by (rule foldl_sourced)

lemma check_clients_kept:
  "map_of u k = Some v \<Longrightarrow>
   \<exists>v'. map_of (fst (check_clients mon u res)) k = Some v'
        \<and> (v' = v \<or> (k \<in> set mon \<and> complete_url res k v'))"
  unfolding check_clients_def by (rule foldl_kept)

lemma poll_attempt_urls:
  assumes "poll_attempt cl u out = Stop (Inr u') evs \<or> poll_attempt cl u out = Next u' fl evs"
  shows "u' = (case out of
             Response d \<Rightarrow> fst (check_clients (clientsToMonitor cl (data_or_empty d)) u
                                  (data_or_empty d))
           | _ \<Rightarrow> u)"
  using assms
  by (cases out) (auto simp: poll_attempt_def Let_def split: prod.splits if_splits)

lemma poll_attempt_sourced:
  assumes "poll_attempt cl u out = Stop (Inr u') evs \<or> poll_attempt cl u out = Next u' fl evs"
    and "map_of u' k = Some v"
  shows "map_of u k = Some v
     \<or> (\<exists>d. out = Response d \<and> k \<in> set (clientsToMonitor cl (data_or_empty d))
             \<and> complete_url (data_or_empty d) k v)"
proof (cases out)
  case (Response d)
  with poll_attempt_urls[OF assms(1)] assms(2)
  have "map_of (fst (check_clients (clientsToMonitor cl (data_or_empty d)) u (data_or_empty d))) k
      = Some v" by simp
  from check_clients_sourced[OF this] Response show ?thesis by blast
next
  case (HttpError s)
  with poll_attempt_urls[OF assms(1)] assms(2) show ?thesis by simp
next
  case NetworkError
  with poll_attempt_urls[OF assms(1)] assms(2) show ?thesis by simp
qed

lemma poll_attempt_kept:
  assumes "poll_attempt cl u out = Stop (Inr u') evs \<or> poll_attempt cl u out = Next u' fl evs"
    and "map_of u k = Some v"
  shows "\<exists>v'. map_of u' k = Some v'
     \<and> (v' = v \<or> (\<exists>d. out = Response d \<and> k \<in> set (clientsToMonitor cl (data_or_empty d))
             \<and> complete_url (data_or_empty d) k v'))"
proof (cases out)
  case (Response d)
  from check_clients_kept[OF assms(2), of "clientsToMonitor cl (data_or_empty d)" "data_or_empty d"]
    poll_attempt_urls[OF assms(1)] Response
  show ?thesis by auto
next
  case (HttpError s)
  with poll_attempt_urls[OF assms(1)] assms(2) show ?thesis by simp
next
  case NetworkError
  with poll_attempt_urls[OF assms(1)] assms(2) show ?thesis by simp
qed

lemma poll_loop_sourced:
  "poll_loop fetch cl a u = (Inr m, evs) \<Longrightarrow> map_of m k = Some v \<Longrightarrow>
   map_of u k = Some v
   \<or> (\<exists>j d. Fetch j \<in> set evs \<and> fetch j = Response d
         \<and> k \<in> set (clientsToMonitor cl (data_or_empty d))
         \<and> complete_url (data_or_empty d) k v)"
proof (induction fetch cl a u arbitrary: evs rule: poll_loop.induct)
  case (1 fetch cl a u)
  show ?case
  proof (cases "a < MAX_POLLING_ATTEMPTS")
    case False
    with "1.prems" show ?thesis by (simp add: poll_loop_past)
  next
    case lt: True
    show ?thesis
    proof (cases "poll_attempt cl u (fetch a)")
      case (Stop r evs0)
      with "1.prems"(1) lt have r: "r = Inr m" and e: "evs = Fetch a # evs0"
        by (simp_all add: poll_loop_unfold)
      have d: "poll_attempt cl u (fetch a) = Stop (Inr m) evs0
          \<or> poll_attempt cl u (fetch a) = Next m False evs0" using Stop r by simp
      from poll_attempt_sourced[OF d "1.prems"(2)] e lt show ?thesis by auto
    next
      case (Next u' fl evs0)
      obtain r rest where pl: "poll_loop fetch cl (Suc a) u' = (r, rest)"
        by (cases "poll_loop fetch cl (Suc a) u'")
      with "1.prems"(1) lt Next have r: "r = Inr m"
        and e: "evs = Fetch a # evs0 @ wait_events a fl @ rest"
        by (simp_all add: poll_loop_unfold)
      from "1.IH"[OF lt Next pl[unfolded r] "1.prems"(2)] show ?thesis
      proof
        assume "map_of u' k = Some v"
        moreover have "poll_attempt cl u (fetch a) = Stop (Inr u') evs0
          \<or> poll_attempt cl u (fetch a) = Next u' fl evs0" using Next by simp
        ultimately show ?thesis using poll_attempt_sourced e by fastforce
      next
        assume "\<exists>j d. Fetch j \<in> set rest \<and> fetch j = Response d
           \<and> k \<in> set (clientsToMonitor cl (data_or_empty d))
           \<and> complete_url (data_or_empty d) k v"
        with e show ?thesis by auto
      qed
    qed
  qed
qed

lemma poll_loop_kept:
  "poll_loop fetch cl a u = (Inr m, evs) \<Longrightarrow> map_of u k = Some v \<Longrightarrow>
   \<exists>v'. map_of m k = Some v'
     \<and> (v' = v \<or> (\<exists>j d. Fetch j \<in> set evs \<and> fetch j = Response d
            \<and> k \<in> set (clientsToMonitor cl (data_or_empty d))
            \<and> complete_url (data_or_empty d) k v'))"
proof (induction fetch cl a u arbitrary: evs v rule: poll_loop.induct)
  case (1 fetch cl a u)
  show ?case
  proof (cases "a < MAX_POLLING_ATTEMPTS")
    case False
    with "1.prems" show ?thesis by (simp add: poll_loop_past)
  next
    case lt: True
    show ?thesis
    proof (cases "poll_attempt cl u (fetch a)")
      case (Stop r evs0)
      with "1.prems"(1) lt have r: "r = Inr m" and e: "evs = Fetch a # evs0"
        by (simp_all add: poll_loop_unfold)
      have d: "poll_attempt cl u (fetch a) = Stop (Inr m) evs0
          \<or> poll_attempt cl u (fetch a) = Next m False evs0" using Stop r by simp
      from poll_attempt_kept[OF d "1.prems"(2)] e show ?thesis by auto
    next
      case (Next u' fl evs0)
      obtain r rest where pl: "poll_loop fetch cl (Suc a) u' = (r, rest)"
        by (cases "poll_loop fetch cl (Suc a) u'")
      with "1.prems"(1) lt Next have r: "r = Inr m"
        and e: "evs = Fetch a # evs0 @ wait_events a fl @ rest"
        by (simp_all add: poll_loop_unfold)
      have d: "poll_attempt cl u (fetch a) = Stop (Inr u') evs0
          \<or> poll_attempt cl u (fetch a) = Next u' fl evs0" using Next by simp
      from poll_attempt_kept[OF d "1.prems"(2)]
      obtain v1 where v1: "map_of u' k = Some v1"
        "v1 = v \<or> (\<exists>d. fetch a = Response d \<and> k \<in> set (clientsToMonitor cl (data_or_empty d))
             \<and> complete_url (data_or_empty d) k v1)" by auto
      from "1.IH"[OF lt Next pl[unfolded r] v1(1)] obtain v' where
        v': "map_of m k = Some v'"
        "v' = v1 \<or> (\<exists>j d. Fetch j \<in> set rest \<and> fetch j = Response d
            \<and> k \<in> set (clientsToMonitor cl (data_or_empty d))
            \<and> complete_url (data_or_empty d) k v')" by blast
      from v1(2) v'(2) e have "v' = v \<or> (\<exists>j d. Fetch j \<in> set evs \<and> fetch j = Response d
            \<and> k \<in> set (clientsToMonitor cl (data_or_empty d))
            \<and> complete_url (data_or_empty d) k v')"
        by auto
      with v'(1) show ?thesis by blast
    qed
  qed
qed

lemma is_fetch_iff: "is_fetch e = (\<exists>k. e = Fetch k)"
  by (cases e) simp_all

lemma filter_is_fetch_Nil: "(\<And>k. Fetch k \<notin> set evs) \<Longrightarrow> filter is_fetch evs = []"
  by (auto simp: filter_empty_conv is_fetch_iff)



lemma getPreviewUrls_unfold:
  "test_id \<noteq> [] \<Longrightarrow> getPreviewUrls test_id cl fetch =
     (fst (poll_loop fetch cl 0 []),
      (if cl = [] then [Console Warning NoClientsRequested] else [])
        @ snd (poll_loop fetch cl 0 [])
        @ (case fst (poll_loop fetch cl 0 []) of Inl e \<Rightarrow> [] | Inr m \<Rightarrow> [closing_summary cl m]))"
  by (cases "poll_loop fetch cl 0 []") (simp add: getPreviewUrls_def split: sum.splits)

lemma getPreviewUrls_Inr:
  "fst (getPreviewUrls test_id cl fetch) = Inr m \<Longrightarrow> test_id \<noteq> []"
  by (auto simp: getPreviewUrls_def split: if_splits)

subsection \<open>The ceiling, the interval, and the keys of the mapping\<close>

lemma poll_attempt_no_sleep:
  "poll_attempt cl u out = Stop r evs \<Longrightarrow> Sleep n \<notin> set evs"
  "poll_attempt cl u out = Next u' fl evs \<Longrightarrow> Sleep n \<notin> set evs"
  by (auto simp: poll_attempt_def Let_def split: fetch_outcome.splits if_splits prod.splits)

lemma poll_loop_fetches:
  "\<exists>n. a + n \<le> max a MAX_POLLING_ATTEMPTS
      \<and> filter is_fetch (snd (poll_loop fetch cl a u)) = map Fetch [a..<a + n]"
proof (induction fetch cl a u rule: poll_loop.induct)
  case (1 fetch cl a u)
  show ?case
  proof (cases "a < MAX_POLLING_ATTEMPTS")
    case False
    then have "filter is_fetch (snd (poll_loop fetch cl a u)) = map Fetch [a..<a + 0]"
      by (simp add: poll_loop_past)
    then show ?thesis by (intro exI[of _ 0]) simp
  next
    case lt: True
    show ?thesis
    proof (cases "poll_attempt cl u (fetch a)")
      case (Stop r evs)
      have "filter is_fetch evs = []"
        using poll_attempt_no_fetch(1)[OF Stop] by (rule filter_is_fetch_Nil)
      with Stop lt have "filter is_fetch (snd (poll_loop fetch cl a u)) = map Fetch [a..<a + 1]"
        by (simp add: poll_loop_unfold)
      with lt show ?thesis by (intro exI[of _ 1]) simp
    next
      case (Next u' fl evs)
      have e: "filter is_fetch evs = []"
        using poll_attempt_no_fetch(2)[OF Next] by (rule filter_is_fetch_Nil)
      have w: "filter is_fetch (wait_events a fl) = []" by (simp add: wait_events_def)
      from "1.IH"[OF lt Next] obtain n where
        n: "Suc a + n \<le> max (Suc a) MAX_POLLING_ATTEMPTS"
           "filter is_fetch (snd (poll_loop fetch cl (Suc a) u')) = map Fetch [Suc a..<Suc a + n]"
        by blast
      have "filter is_fetch (snd (poll_loop fetch cl a u)) = map Fetch [a..<a + Suc n]"
        using lt Next e w n(2) by (simp add: poll_loop_unfold prepend_snd upt_conv_Cons)
      moreover have "a + Suc n \<le> max a MAX_POLLING_ATTEMPTS" using n(1) lt by simp
      ultimately show ?thesis by blast
    qed
  qed
qed

lemma poll_loop_at_most_60_fetches:
  "length (filter is_fetch (snd (poll_loop fetch cl 0 []))) \<le> 60"
proof -
  from poll_loop_fetches[of 0 fetch cl "[]"] obtain n where
    "n \<le> MAX_POLLING_ATTEMPTS" "filter is_fetch (snd (poll_loop fetch cl 0 [])) = map Fetch [0..<n]"
    by auto
  then show ?thesis by (simp add: MAX_POLLING_ATTEMPTS_def)
qed

lemma poll_loop_sleep_interval:
  "Sleep n \<in> set (snd (poll_loop fetch cl a u)) \<Longrightarrow> n = 10000"
proof (induction fetch cl a u rule: poll_loop.induct)
  case (1 fetch cl a u)
  show ?case
  proof (cases "a < MAX_POLLING_ATTEMPTS")
    case False
    with "1.prems" show ?thesis by (simp add: poll_loop_past)
  next
    case lt: True
    show ?thesis
    proof (cases "poll_attempt cl u (fetch a)")
      case (Stop r evs)
      with "1.prems" lt poll_attempt_no_sleep(1)[OF Stop] show ?thesis
        by (auto simp: poll_loop_unfold)
    next
      case (Next u' fl evs)
      with "1.prems" lt poll_attempt_no_sleep(2)[OF Next]
      have "Sleep n \<in> set (wait_events a fl) \<or> Sleep n \<in> set (snd (poll_loop fetch cl (Suc a) u'))"
        by (auto simp: poll_loop_unfold prepend_snd)
      then show ?thesis
      proof
        assume "Sleep n \<in> set (wait_events a fl)"
        then show ?thesis
          by (simp add: wait_events_def POLLING_INTERVAL_MS_def split: if_splits)
      next
        assume "Sleep n \<in> set (snd (poll_loop fetch cl (Suc a) u'))"
        from "1.IH"[OF lt Next this] show ?thesis .
      qed
    qed
  qed
qed

lemma poll_loop_sleeps_before_next:
  assumes "Suc a < MAX_POLLING_ATTEMPTS" "poll_attempt cl u (fetch a) = Next u' fl evs"
  shows "\<exists>r rest. poll_loop fetch cl a u =
           (r, Fetch a # evs @ Sleep POLLING_INTERVAL_MS # Fetch (Suc a) # rest)"
proof -
  from assms(2) have fl: "fl = False" by (rule poll_attempt_Next_False)
  from poll_loop_starts[OF assms(1), of fetch cl u'] obtain r rest where
    "poll_loop fetch cl (Suc a) u' = (r, Fetch (Suc a) # rest)" by blast
  with assms fl show ?thesis by (simp add: poll_loop_unfold wait_events_False)
qed

lemma script_attempt_no_sleep: "Sleep n \<notin> set (snd (script_attempt a out))"
proof (cases out)
  case (Response d)
  then show ?thesis
    by (cases "results_of d") (simp_all add: script_attempt_def check_results_def Let_def)
qed (simp_all add: script_attempt_def)

lemma script_loop_fetches:
  "\<exists>n. a + n \<le> max a MAX_POLLING_ATTEMPTS
      \<and> filter is_fetch (snd (script_loop fetch a fr)) = map Fetch [a..<a + n]"
proof (induction fetch a fr rule: script_loop.induct)
  case (1 fetch a fr)
  show ?case
  proof (cases "a < MAX_POLLING_ATTEMPTS")
    case False
    then have "filter is_fetch (snd (script_loop fetch a fr)) = map Fetch [a..<a + 0]"
      by (simp add: script_loop_past)
    then show ?thesis by (intro exI[of _ 0]) simp
  next
    case lt: True
    obtain st evs where sa: "script_attempt a (fetch a) = (st, evs)"
      by (cases "script_attempt a (fetch a)")
    have e: "filter is_fetch evs = []"
      using script_attempt_no_fetch[OF sa] by (rule filter_is_fetch_Nil)
    show ?thesis
    proof (cases st)
      case Break
      with sa lt e have "filter is_fetch (snd (script_loop fetch a fr)) = map Fetch [a..<a + 1]"
        by (simp add: script_loop_unfold)
      with lt show ?thesis by (intro exI[of _ 1]) simp
    next
      case (Exit c)
      with sa lt e have "filter is_fetch (snd (script_loop fetch a fr)) = map Fetch [a..<a + 1]"
        by (simp add: script_loop_unfold)
      with lt show ?thesis by (intro exI[of _ 1]) simp
    next
      case (Continue fl)
      have w: "filter is_fetch (wait_events a fl) = []" by (simp add: wait_events_def)
      from "1.IH"[OF lt sa[symmetric] Continue] obtain n where
        n: "Suc a + n \<le> max (Suc a) MAX_POLLING_ATTEMPTS"
           "filter is_fetch (snd (script_loop fetch (Suc a) (received fr (fetch a))))
              = map Fetch [Suc a..<Suc a + n]"
        by blast
      have "filter is_fetch (snd (script_loop fetch a fr)) = map Fetch [a..<a + Suc n]"
        using lt sa Continue e w n(2) by (simp add: script_loop_unfold prepend_snd upt_conv_Cons)
      moreover have "a + Suc n \<le> max a MAX_POLLING_ATTEMPTS" using n(1) lt by simp
      ultimately show ?thesis by blast
    qed
  qed
qed

lemma script_loop_at_most_60_fetches:
  "length (filter is_fetch (snd (script_loop fetch 0 None))) \<le> 60"
proof -
  from script_loop_fetches[of 0 fetch None] obtain n where
    "n \<le> MAX_POLLING_ATTEMPTS" "filter is_fetch (snd (script_loop fetch 0 None)) = map Fetch [0..<n]"
    by auto
  then show ?thesis by (simp add: MAX_POLLING_ATTEMPTS_def)
qed

lemma script_loop_sleep_interval:
  "Sleep n \<in> set (snd (script_loop fetch a fr)) \<Longrightarrow> n = 10000"
proof (induction fetch a fr rule: script_loop.induct)
  case (1 fetch a fr)
  show ?case
  proof (cases "a < MAX_POLLING_ATTEMPTS")
    case False
    with "1.prems" show ?thesis by (simp add: script_loop_past)
  next
    case lt: True
    obtain st evs where sa: "script_attempt a (fetch a) = (st, evs)"
      by (cases "script_attempt a (fetch a)")
    have ns: "Sleep n \<notin> set evs" using script_attempt_no_sleep[of n a "fetch a"] sa by simp
    show ?thesis
    proof (cases st)
      case Break
      with "1.prems" lt sa ns show ?thesis by (auto simp: script_loop_unfold)
    next
      case (Exit c)
      with "1.prems" lt sa ns show ?thesis by (auto simp: script_loop_unfold)
    next
      case (Continue fl)
      with "1.prems" lt sa ns
      have "Sleep n \<in> set (wait_events a fl)
          \<or> Sleep n \<in> set (snd (script_loop fetch (Suc a) (received fr (fetch a))))"
        by (auto simp: script_loop_unfold prepend_snd)
      then show ?thesis
      proof
        assume "Sleep n \<in> set (wait_events a fl)"
        then show ?thesis
          by (simp add: wait_events_def POLLING_INTERVAL_MS_def split: if_splits)
      next
        assume "Sleep n \<in> set (snd (script_loop fetch (Suc a) (received fr (fetch a))))"
        from "1.IH"[OF lt sa[symmetric] Continue this] show ?thesis .
      qed
    qed
  qed
qed

lemma poll_attempt_distinct:
  assumes "poll_attempt cl u out = Stop (Inr u') evs \<or> poll_attempt cl u out = Next u' fl evs"
    and "distinct (map fst u)"
  shows "distinct (map fst u')"
  using poll_attempt_urls[OF assms(1)] assms(2)
  by (cases out) (simp_all add: check_clients_def foldl_distinct)

lemma poll_loop_distinct:
  "poll_loop fetch cl a u = (Inr m, evs) \<Longrightarrow> distinct (map fst u) \<Longrightarrow> distinct (map fst m)"
proof (induction fetch cl a u arbitrary: evs rule: poll_loop.induct)
  case (1 fetch cl a u)
  show ?case
  proof (cases "a < MAX_POLLING_ATTEMPTS")
    case False
    with "1.prems" show ?thesis by (simp add: poll_loop_past)
  next
    case lt: True
    show ?thesis
    proof (cases "poll_attempt cl u (fetch a)")
      case (Stop r evs0)
      with "1.prems"(1) lt have "r = Inr m" by (simp add: poll_loop_unfold)
      with Stop have "poll_attempt cl u (fetch a) = Stop (Inr m) evs0
          \<or> poll_attempt cl u (fetch a) = Next m False evs0" by simp
      from poll_attempt_distinct[OF this "1.prems"(2)] show ?thesis .
    next
      case (Next u' fl evs0)
      obtain r rest where pl: "poll_loop fetch cl (Suc a) u' = (r, rest)"
        by (cases "poll_loop fetch cl (Suc a) u'")
      with "1.prems"(1) lt Next have r: "r = Inr m" by (simp add: poll_loop_unfold)
      have "poll_attempt cl u (fetch a) = Stop (Inr u') evs0
          \<or> poll_attempt cl u (fetch a) = Next u' fl evs0" using Next by simp
      from poll_attempt_distinct[OF this "1.prems"(2)] have "distinct (map fst u')" .
      from "1.IH"[OF lt Next pl[unfolded r] this] show ?thesis .
    qed
  qed
qed

subsection \<open>The mapping client by client, and an example that reaches the ceiling\<close>













lemma getPreviewUrls_after_response:
  assumes "Fetch k \<in> set (snd (getPreviewUrls test_id cl fetch))" "fetch k = Response data"
  shows "if list_all (is_final (data_or_empty data)) (clientsToMonitor cl (data_or_empty data))
         then \<exists>pre m. getPreviewUrls test_id cl fetch =
                (Inr m, pre @ [Fetch k, Console Info AllFinal, closing_summary cl m])
         else if Suc k < MAX_POLLING_ATTEMPTS
         then \<exists>pre post. snd (getPreviewUrls test_id cl fetch) =
                pre @ [Fetch k, Sleep POLLING_INTERVAL_MS, Fetch (Suc k)] @ post
         else \<exists>pre m. getPreviewUrls test_id cl fetch =
                (Inr m, pre @ [Fetch k, closing_summary cl m])"
proof -
  let ?run = "getPreviewUrls test_id cl fetch"
  let ?res = "data_or_empty data"
  from getPreviewUrls_at[OF assms(1)] obtain pre u where
    p: "k < MAX_POLLING_ATTEMPTS"
       "\<forall>r evs. poll_loop fetch cl k u = (r, evs) \<longrightarrow>
           ?run = (r, pre @ evs @ (case r of Inl e \<Rightarrow> [] | Inr m \<Rightarrow> [closing_summary cl m]))"
    by blast
  show ?thesis
  proof (cases "list_all (is_final ?res) (clientsToMonitor cl ?res)")
    case True
    then have "\<forall>c\<in>set (clientsToMonitor cl ?res). is_final ?res c"
      by (simp add: list_all_iff)
    from poll_loop_final[where fetch = fetch and a = k and data = data and cl = cl and u = u]
      p(1) assms(2) this obtain m where
      "poll_loop fetch cl k u = (Inr m, [Fetch k, Console Info AllFinal])" by blast
    with p(2) have "?run = (Inr m, pre @ [Fetch k, Console Info AllFinal, closing_summary cl m])"
      by simp
    with True show ?thesis by (simp only: if_True) blast
  next
    case False
    then have kp: "keeps_polling cl (fetch k)"
      using assms(2) by (simp add: keeps_polling_def)
    from poll_attempt_keeps[OF kp, of u] assms(2) obtain u' where
      pa: "poll_attempt cl u (fetch k) = Next u' False []" by auto
    have step: "poll_loop fetch cl k u =
        prepend (Fetch k # wait_events k False) (poll_loop fetch cl (Suc k) u')"
      using p(1) pa by (simp add: poll_loop_unfold)
    show ?thesis
    proof (cases "Suc k < MAX_POLLING_ATTEMPTS")
      case lt: True
      from poll_loop_starts[OF lt, of fetch cl u'] obtain r rest where
        "poll_loop fetch cl (Suc k) u' = (r, Fetch (Suc k) # rest)" by blast
      with step lt have "poll_loop fetch cl k u =
          (r, [Fetch k, Sleep POLLING_INTERVAL_MS, Fetch (Suc k)] @ rest)"
        by (simp add: wait_events_False)
      with p(2) have "snd ?run = pre @ [Fetch k, Sleep POLLING_INTERVAL_MS, Fetch (Suc k)]
          @ (rest @ (case r of Inl e \<Rightarrow> [] | Inr m \<Rightarrow> [closing_summary cl m]))"
        by simp
      with False lt show ?thesis by (simp only: if_True if_False) blast
    next
      case ge: False
      with step have "poll_loop fetch cl k u = (Inr u', [Fetch k])"
        by (simp add: wait_events_False poll_loop_past)
      with p(2) have "?run = (Inr u', pre @ [Fetch k, closing_summary cl u'])" by simp
      with False ge show ?thesis by (simp only: if_False) blast
    qed
  qed
qed

section \<open>The claims about the polling loops\<close>

text \<open>
  C1. Whenever an attempt of the loop in getPreviewUrls is made and its response gives
  every monitored client a final status (Complete, Failed or Bounced), that fetch is the last
  event of the loop: the exit message and the closing summary follow, no further fetch and
  no sleep, and the function returns a mapping. Likewise, whenever an attempt of the results
  script receives a non-empty array of results none of which is pending, that fetch is the
  last one and the script goes on to save the response.
\<close>

theorem polling_stops_once_all_final:
  "(Fetch k \<in> set (snd (getPreviewUrls test_id emailClients fetch))
      \<and> fetch k = Response data
      \<and> (\<forall>c\<in>set (clientsToMonitor emailClients (data_or_empty data)).
             is_final (data_or_empty data) c)
    \<longrightarrow> (\<exists>pre m. getPreviewUrls test_id emailClients fetch =
                 (Inr m, pre @ [Fetch k, Console Info AllFinal, closing_summary emailClients m])
             \<and> (\<forall>j. Fetch j \<in> set pre \<longrightarrow> j < k)))
   \<and> (Fetch k' \<in> set (snd (getFullEmailOnAcidResults apiKey accountPassword fetch' write_ok))
      \<and> fetch' k' = Response data'
      \<and> results_of data' = JArr results \<and> results \<noteq> []
      \<and> (\<forall>r\<in>set results. field r ''status'' \<noteq> Some (JStr ''pending''))
    \<longrightarrow> (\<exists>pre. getFullEmailOnAcidResults apiKey accountPassword fetch' write_ok =
                 save_response write_ok (Inr (Some data'), pre @ [Fetch k', Console Info AllFinal])
             \<and> (\<forall>j. Fetch j \<in> set pre \<longrightarrow> j < k')))"
proof (intro conjI impI)
  assume h: "Fetch k \<in> set (snd (getPreviewUrls test_id emailClients fetch))
      \<and> fetch k = Response data
      \<and> (\<forall>c\<in>set (clientsToMonitor emailClients (data_or_empty data)).
             is_final (data_or_empty data) c)"
  from getPreviewUrls_at[of k test_id emailClients fetch] h obtain pre u where
    p: "k < MAX_POLLING_ATTEMPTS" "\<forall>j. Fetch j \<in> set pre \<longrightarrow> j < k"
       "\<forall>r evs. poll_loop fetch emailClients k u = (r, evs) \<longrightarrow>
           getPreviewUrls test_id emailClients fetch =
             (r, pre @ evs @ (case r of Inl e \<Rightarrow> [] | Inr m \<Rightarrow> [closing_summary emailClients m]))"
    by blast
  from poll_loop_final[OF p(1), of fetch data emailClients u] h obtain m where
    "poll_loop fetch emailClients k u = (Inr m, [Fetch k, Console Info AllFinal])" by blast
  with p(3) have "getPreviewUrls test_id emailClients fetch =
      (Inr m, pre @ [Fetch k, Console Info AllFinal, closing_summary emailClients m])"
    by simp
  with p(2) show "\<exists>pre m. getPreviewUrls test_id emailClients fetch =
                 (Inr m, pre @ [Fetch k, Console Info AllFinal, closing_summary emailClients m])
             \<and> (\<forall>j. Fetch j \<in> set pre \<longrightarrow> j < k)" by blast
next
  assume h: "Fetch k' \<in> set (snd (getFullEmailOnAcidResults apiKey accountPassword fetch' write_ok))
      \<and> fetch' k' = Response data'
      \<and> results_of data' = JArr results \<and> results \<noteq> []
      \<and> (\<forall>r\<in>set results. field r ''status'' \<noteq> Some (JStr ''pending''))"
  from script_at[of k' apiKey accountPassword fetch' write_ok] h obtain pre fr where
    p: "k' < MAX_POLLING_ATTEMPTS" "\<forall>j. Fetch j \<in> set pre \<longrightarrow> j < k'"
       "getFullEmailOnAcidResults apiKey accountPassword fetch' write_ok =
          prepend pre (save_response write_ok (script_loop fetch' k' fr))"
    by blast
  have "script_loop fetch' k' fr = (Inr (Some data'), [Fetch k', Console Info AllFinal])"
    using script_loop_final[OF p(1), of fetch' data' results fr] h by blast
  then have "getFullEmailOnAcidResults apiKey accountPassword fetch' write_ok =
      save_response write_ok (Inr (Some data'), pre @ [Fetch k', Console Info AllFinal])"
    using p(3) save_response_prepend[of write_ok pre "(Inr (Some data'), [Fetch k', Console Info AllFinal])"]
    by simp
  with p(2) show "\<exists>pre. getFullEmailOnAcidResults apiKey accountPassword fetch' write_ok =
                 save_response write_ok (Inr (Some data'), pre @ [Fetch k', Console Info AllFinal])
             \<and> (\<forall>j. Fetch j \<in> set pre \<longrightarrow> j < k')" by blast
qed

theorem polling_stops_once_all_final_witness:
  "((Fetch 0 \<in> set (snd (getPreviewUrls ''job'' [''outlook''] (\<lambda>n. outlook_done)))
      \<and> outlook_done
            = Response (Some [(''outlook'', client_complete ''https://preview/outlook.png'')])
      \<and> list_all
            (is_final (data_or_empty (Some [(''outlook'', client_complete ''https://preview/outlook.png'')])))
            (clientsToMonitor [''outlook'']
               (data_or_empty (Some [(''outlook'', client_complete ''https://preview/outlook.png'')]))))
    \<and> (\<exists>pre m. getPreviewUrls ''job'' [''outlook''] (\<lambda>n. outlook_done) =
                 (Inr m, pre @ [Fetch 0, Console Info AllFinal, closing_summary [''outlook''] m])
             \<and> (\<forall>j. Fetch j \<in> set pre \<longrightarrow> j < 0)))
   \<and> ((Fetch 0 \<in> set (snd (getFullEmailOnAcidResults (Some ''key'') (Some ''secret'')
                              (\<lambda>n. one_complete_result) True))
      \<and> one_complete_result
            = Response (JObj [(''results'', JArr [JObj [(''status'', JStr ''complete'')]])])
      \<and> results_of (JObj [(''results'', JArr [JObj [(''status'', JStr ''complete'')]])])
            = JArr [JObj [(''status'', JStr ''complete'')]]
      \<and> [JObj [(''status'', JStr ''complete'')]] \<noteq> []
      \<and> list_all (\<lambda>r. field r ''status'' \<noteq> Some (JStr ''pending''))
            [JObj [(''status'', JStr ''complete'')]])
    \<and> (\<exists>pre. getFullEmailOnAcidResults (Some ''key'') (Some ''secret'')
                 (\<lambda>n. one_complete_result) True =
                 save_response True
                   (Inr (Some (JObj [(''results'', JArr [JObj [(''status'', JStr ''complete'')]])])),
                    pre @ [Fetch 0, Console Info AllFinal])
             \<and> (\<forall>j. Fetch j \<in> set pre \<longrightarrow> j < 0)))"
  (is "(?H1 \<and> ?C1) \<and> (?H2 \<and> ?C2)")
proof -
  have h1: ?H1 by code_simp
  have h2: ?H2 by code_simp
  note inst = polling_stops_once_all_final
    [where k = 0 and test_id = "''job''" and emailClients = "[''outlook'']"
       and fetch = "\<lambda>n. outlook_done"
       and data = "Some [(''outlook'', client_complete ''https://preview/outlook.png'')]"
       and k' = 0 and apiKey = "Some ''key''" and accountPassword = "Some ''secret''"
       and fetch' = "\<lambda>n. one_complete_result" and write_ok = True
       and data' = "JObj [(''results'', JArr [JObj [(''status'', JStr ''complete'')]])]"
       and results = "[JObj [(''status'', JStr ''complete'')]]"]
  from inst h1[unfolded list_all_iff] h2[unfolded list_all_iff] have "?C1" and "?C2" by blast+
  with h1 h2 show ?thesis by blast
qed

text \<open>
  C3. Whenever an attempt of either loop is made and fails with status 401, the run ends
  with that fetch and the error message: getPreviewUrls returns the error to its caller,
  the script exits with code 1, and neither a sleep nor another fetch follows.
\<close>

theorem authentication_failure_aborts:
  "(Fetch k \<in> set (snd (getPreviewUrls test_id emailClients fetch)) \<and> fetch k = HttpError 401
    \<longrightarrow> (\<exists>pre. getPreviewUrls test_id emailClients fetch =
                 (Inl (AxiosError 401), pre @ [Fetch k, Console Error AuthFailed])))
   \<and> (Fetch k' \<in> set (snd (getFullEmailOnAcidResults apiKey accountPassword fetch' write_ok))
      \<and> fetch' k' = HttpError 401
    \<longrightarrow> (\<exists>pre. getFullEmailOnAcidResults apiKey accountPassword fetch' write_ok =
                 (ProcessExit 1, pre @ [Fetch k', Console Error AuthFailed])))"
proof (intro conjI impI)
  assume h: "Fetch k \<in> set (snd (getPreviewUrls test_id emailClients fetch)) \<and> fetch k = HttpError 401"
  from getPreviewUrls_at[of k test_id emailClients fetch] h obtain pre u where
    p: "k < MAX_POLLING_ATTEMPTS"
       "\<forall>r evs. poll_loop fetch emailClients k u = (r, evs) \<longrightarrow>
           getPreviewUrls test_id emailClients fetch =
             (r, pre @ evs @ (case r of Inl e \<Rightarrow> [] | Inr m \<Rightarrow> [closing_summary emailClients m]))"
    by blast
  from poll_loop_401[OF p(1), of fetch emailClients u] h p(2)
  have "getPreviewUrls test_id emailClients fetch =
      (Inl (AxiosError 401), pre @ [Fetch k, Console Error AuthFailed])" by simp
  then show "\<exists>pre. getPreviewUrls test_id emailClients fetch =
                 (Inl (AxiosError 401), pre @ [Fetch k, Console Error AuthFailed])" by blast
next
  assume h: "Fetch k' \<in> set (snd (getFullEmailOnAcidResults apiKey accountPassword fetch' write_ok))
      \<and> fetch' k' = HttpError 401"
  from script_at[of k' apiKey accountPassword fetch' write_ok] h obtain pre fr where
    p: "k' < MAX_POLLING_ATTEMPTS"
       "getFullEmailOnAcidResults apiKey accountPassword fetch' write_ok =
          prepend pre (save_response write_ok (script_loop fetch' k' fr))"
    by blast
  from script_loop_401[OF p(1), of fetch' fr] h p(2)
  have "getFullEmailOnAcidResults apiKey accountPassword fetch' write_ok =
      (ProcessExit 1, pre @ [Fetch k', Console Error AuthFailed])" by simp
  then show "\<exists>pre. getFullEmailOnAcidResults apiKey accountPassword fetch' write_ok =
                 (ProcessExit 1, pre @ [Fetch k', Console Error AuthFailed])" by blast
qed

theorem authentication_failure_aborts_witness:
  "((Fetch 0 \<in> set (snd (getPreviewUrls ''job'' [''outlook''] (\<lambda>n. HttpError 401)))
       \<and> (\<lambda>n::nat. HttpError 401 :: api_results option fetch_outcome) 0 = HttpError 401)
    \<and> (\<exists>pre. getPreviewUrls ''job'' [''outlook''] (\<lambda>n. HttpError 401) =
                 (Inl (AxiosError 401), pre @ [Fetch 0, Console Error AuthFailed])))
   \<and> ((Fetch 0 \<in> set (snd (getFullEmailOnAcidResults (Some ''key'') (Some ''secret'')
                               (\<lambda>n. HttpError 401) True))
       \<and> (\<lambda>n::nat. HttpError 401 :: json fetch_outcome) 0 = HttpError 401)
    \<and> (\<exists>pre. getFullEmailOnAcidResults (Some ''key'') (Some ''secret'') (\<lambda>n. HttpError 401) True =
                 (ProcessExit 1, pre @ [Fetch 0, Console Error AuthFailed])))"
  (is "(?H1 \<and> ?C1) \<and> (?H2 \<and> ?C2)")
proof -
  have h1: ?H1 by code_simp
  have h2: ?H2 by code_simp
  from authentication_failure_aborts
    [where k = 0 and test_id = "''job''" and emailClients = "[''outlook'']"
       and fetch = "\<lambda>n. HttpError 401"
       and k' = 0 and apiKey = "Some ''key''" and accountPassword = "Some ''secret''"
       and fetch' = "\<lambda>n. HttpError 401" and write_ok = True]
  have "(?H1 \<longrightarrow> ?C1) \<and> (?H2 \<longrightarrow> ?C2)" .
  with h1 h2 show ?thesis by blast
qed

text \<open>
  C7. Whenever an attempt of either loop is made and fails with anything but status 401
  (404, another status, or no response at all), a warning is printed and, below the ceiling,
  the loop sleeps for the fixed interval and makes the next attempt; on the last attempt
  the loop simply ends, getPreviewUrls returning its mapping and the script going on to
  its final test.
\<close>

theorem transient_errors_are_retried:
  "(Fetch k \<in> set (snd (getPreviewUrls test_id emailClients fetch)) \<and> transient (fetch k)
    \<longrightarrow> (if Suc k < MAX_POLLING_ATTEMPTS
         then \<exists>pre post. snd (getPreviewUrls test_id emailClients fetch) =
                pre @ [Fetch k, Console Warning (logged_warning (fetch k)),
                       Sleep POLLING_INTERVAL_MS, Fetch (Suc k)] @ post
         else \<exists>pre m. getPreviewUrls test_id emailClients fetch =
                (Inr m, pre @ [Fetch k, Console Warning (logged_warning (fetch k)),
                               closing_summary emailClients m])))
   \<and> (Fetch k' \<in> set (snd (getFullEmailOnAcidResults apiKey accountPassword fetch' write_ok))
      \<and> transient (fetch' k')
    \<longrightarrow> (if Suc k' < MAX_POLLING_ATTEMPTS
         then \<exists>pre post. snd (getFullEmailOnAcidResults apiKey accountPassword fetch' write_ok) =
                pre @ [Fetch k', Console Warning (logged_warning (fetch' k')),
                       Sleep POLLING_INTERVAL_MS, Fetch (Suc k')] @ post
         else \<exists>pre fr. getFullEmailOnAcidResults apiKey accountPassword fetch' write_ok =
                save_response write_ok
                  (Inr fr, pre @ [Fetch k', Console Warning (logged_warning (fetch' k'))])))"
proof (intro conjI impI)
  let ?w = "Console Warning (logged_warning (fetch k))"
  assume h: "Fetch k \<in> set (snd (getPreviewUrls test_id emailClients fetch)) \<and> transient (fetch k)"
  from getPreviewUrls_at[of k test_id emailClients fetch] h obtain pre u where
    p: "k < MAX_POLLING_ATTEMPTS"
       "\<forall>r evs. poll_loop fetch emailClients k u = (r, evs) \<longrightarrow>
           getPreviewUrls test_id emailClients fetch =
             (r, pre @ evs @ (case r of Inl e \<Rightarrow> [] | Inr m \<Rightarrow> [closing_summary emailClients m]))"
    by blast
  have step: "poll_loop fetch emailClients k u =
      prepend (Fetch k # ?w # wait_events k False) (poll_loop fetch emailClients (Suc k) u)"
    using poll_loop_transient[OF p(1)] h by blast
  show "if Suc k < MAX_POLLING_ATTEMPTS
         then \<exists>pre post. snd (getPreviewUrls test_id emailClients fetch) =
                pre @ [Fetch k, ?w, Sleep POLLING_INTERVAL_MS, Fetch (Suc k)] @ post
         else \<exists>pre m. getPreviewUrls test_id emailClients fetch =
                (Inr m, pre @ [Fetch k, ?w, closing_summary emailClients m])"
  proof (cases "Suc k < MAX_POLLING_ATTEMPTS")
    case True
    from poll_loop_starts[OF True, of fetch emailClients u] obtain r rest where
      "poll_loop fetch emailClients (Suc k) u = (r, Fetch (Suc k) # rest)" by blast
    with step True have "poll_loop fetch emailClients k u =
        (r, [Fetch k, ?w, Sleep POLLING_INTERVAL_MS, Fetch (Suc k)] @ rest)"
      by (simp add: wait_events_False)
    with p(2) have "snd (getPreviewUrls test_id emailClients fetch) =
        pre @ [Fetch k, ?w, Sleep POLLING_INTERVAL_MS, Fetch (Suc k)]
          @ (rest @ (case r of Inl e \<Rightarrow> [] | Inr m \<Rightarrow> [closing_summary emailClients m]))"
      by simp
    with True show ?thesis by (simp only: if_True) blast
  next
    case False
    with step have "poll_loop fetch emailClients k u = (Inr u, [Fetch k, ?w])"
      by (simp add: wait_events_False poll_loop_past)
    with p(2) have "getPreviewUrls test_id emailClients fetch =
        (Inr u, pre @ [Fetch k, ?w, closing_summary emailClients u])" by simp
    with False show ?thesis by (simp only: if_False) blast
  qed
next
  let ?w = "Console Warning (logged_warning (fetch' k'))"
  let ?run = "getFullEmailOnAcidResults apiKey accountPassword fetch' write_ok"
  assume h: "Fetch k' \<in> set (snd ?run) \<and> transient (fetch' k')"
  from script_at[of k' apiKey accountPassword fetch' write_ok] h obtain pre fr where
    p: "k' < MAX_POLLING_ATTEMPTS"
       "?run = prepend pre (save_response write_ok (script_loop fetch' k' fr))"
    by blast
  have step: "script_loop fetch' k' fr =
      prepend (Fetch k' # ?w # wait_events k' False) (script_loop fetch' (Suc k') fr)"
    using script_loop_transient[OF p(1)] h by blast
  show "if Suc k' < MAX_POLLING_ATTEMPTS
         then \<exists>pre post. snd ?run =
                pre @ [Fetch k', ?w, Sleep POLLING_INTERVAL_MS, Fetch (Suc k')] @ post
         else \<exists>pre fr. ?run = save_response write_ok (Inr fr, pre @ [Fetch k', ?w])"
  proof (cases "Suc k' < MAX_POLLING_ATTEMPTS")
    case True
    from script_loop_starts[OF True, of fetch' fr] obtain r rest where
      "script_loop fetch' (Suc k') fr = (r, Fetch (Suc k') # rest)" by blast
    with step True have "script_loop fetch' k' fr =
        prepend [Fetch k', ?w, Sleep POLLING_INTERVAL_MS, Fetch (Suc k')] (r, rest)"
      by (simp add: wait_events_False)
    then have "?run = prepend (pre @ [Fetch k', ?w, Sleep POLLING_INTERVAL_MS, Fetch (Suc k')])
          (save_response write_ok (r, rest))"
      by (simp only: p(2) save_response_prepend prepend_prepend)
    then have "snd ?run = pre @ [Fetch k', ?w, Sleep POLLING_INTERVAL_MS, Fetch (Suc k')]
          @ snd (save_response write_ok (r, rest))"
      by (simp add: prepend_snd)
    with True show ?thesis by (simp only: if_True) blast
  next
    case False
    with step have "script_loop fetch' k' fr = prepend [Fetch k', ?w] (Inr fr, [])"
      by (simp add: wait_events_False script_loop_past)
    then have "?run = save_response write_ok (prepend (pre @ [Fetch k', ?w]) (Inr fr, []))"
      by (simp only: p(2) save_response_prepend prepend_prepend)
    then have "?run = save_response write_ok (Inr fr, pre @ [Fetch k', ?w])" by simp
    with False show ?thesis by (simp only: if_False) blast
  qed
qed

theorem transient_errors_are_retried_witness:
  "((Fetch 0 \<in> set (snd (getPreviewUrls ''job'' [''outlook'']
                            (\<lambda>n. if n = 0 then HttpError 404 else outlook_done)))
       \<and> transient ((\<lambda>n::nat. if n = 0 then HttpError 404 else outlook_done) 0))
    \<and> (if Suc 0 < MAX_POLLING_ATTEMPTS
         then \<exists>pre post. snd (getPreviewUrls ''job'' [''outlook'']
                                (\<lambda>n. if n = 0 then HttpError 404 else outlook_done)) =
                pre @ [Fetch 0,
                       Console Warning (logged_warning
                          ((\<lambda>n::nat. if n = 0 then HttpError 404 else outlook_done) 0)),
                       Sleep POLLING_INTERVAL_MS, Fetch (Suc 0)] @ post
         else \<exists>pre m. getPreviewUrls ''job'' [''outlook'']
                          (\<lambda>n. if n = 0 then HttpError 404 else outlook_done) =
                (Inr m, pre @ [Fetch 0,
                               Console Warning (logged_warning
                                  ((\<lambda>n::nat. if n = 0 then HttpError 404 else outlook_done) 0)),
                               closing_summary [''outlook''] m])))
   \<and> ((Fetch 0 \<in> set (snd (getFullEmailOnAcidResults (Some ''key'') (Some ''secret'')
                               (\<lambda>n. if n = 0 then NetworkError else one_complete_result) True))
       \<and> transient ((\<lambda>n::nat. if n = 0 then NetworkError else one_complete_result) 0))
    \<and> (if Suc 0 < MAX_POLLING_ATTEMPTS
         then \<exists>pre post. snd (getFullEmailOnAcidResults (Some ''key'') (Some ''secret'')
                                (\<lambda>n. if n = 0 then NetworkError else one_complete_result) True) =
                pre @ [Fetch 0,
                       Console Warning (logged_warning
                          ((\<lambda>n::nat. if n = 0 then NetworkError else one_complete_result) 0)),
                       Sleep POLLING_INTERVAL_MS, Fetch (Suc 0)] @ post
         else \<exists>pre fr. getFullEmailOnAcidResults (Some ''key'') (Some ''secret'')
                           (\<lambda>n. if n = 0 then NetworkError else one_complete_result) True =
                save_response True
                  (Inr fr, pre @ [Fetch 0,
                                  Console Warning (logged_warning
                                     ((\<lambda>n::nat. if n = 0 then NetworkError else one_complete_result) 0))])))"
  (is "(?H1 \<and> ?C1) \<and> (?H2 \<and> ?C2)")
proof -
  have h1: ?H1 by code_simp
  have h2: ?H2 by code_simp
  from transient_errors_are_retried
    [where k = 0 and test_id = "''job''" and emailClients = "[''outlook'']"
       and fetch = "\<lambda>n. if n = 0 then HttpError 404 else outlook_done"
       and k' = 0 and apiKey = "Some ''key''" and accountPassword = "Some ''secret''"
       and fetch' = "\<lambda>n. if n = 0 then NetworkError else one_complete_result" and write_ok = True]
  have "(?H1 \<longrightarrow> ?C1) \<and> (?H2 \<longrightarrow> ?C2)" .
  with h1 h2 show ?thesis by blast
qed

text \<open>
  C2. The results script, at the input where every response carries an empty list of
  results: after the first attempt it sleeps once, and from then on it makes its attempts one
  after the other without sleeping in between, up to the ceiling of 60.
\<close>

theorem results_script_skips_the_sleep:
  "snd (getFullEmailOnAcidResults (Some ''key'') (Some ''secret'') (\<lambda>n. empty_results) True)
     = Fetch 0 # Sleep 10000 # map Fetch [1..<60] @ [Console Warning MaxAttemptsReached]"
  by code_simp







text \<open>
  C6, as amended. With a non-empty list the monitored clients are that list on every
  attempt: whatever keys the response has, the loop ends on an attempt exactly when every
  listed client is final in its response, and otherwise sleeps and goes on (or ends normally
  at the ceiling). With an empty list the monitored clients are the keys of the response of
  the attempt at hand, taken anew on every attempt: an attempt whose response has keys ends
  the loop exactly when all of these keys are final.
\<close>

theorem tracked_clients_per_attempt:
  "(emailClients \<noteq> [] \<longrightarrow> clientsToMonitor emailClients currentApiResults = emailClients)
   \<and> clientsToMonitor [] currentApiResults = map fst currentApiResults
   \<and> (emailClients \<noteq> []
        \<and> Fetch k \<in> set (snd (getPreviewUrls test_id emailClients fetch))
        \<and> fetch k = Response data
      \<longrightarrow> (if list_all (is_final (data_or_empty data)) emailClients
           then \<exists>pre m. getPreviewUrls test_id emailClients fetch =
                  (Inr m, pre @ [Fetch k, Console Info AllFinal, closing_summary emailClients m])
           else if Suc k < MAX_POLLING_ATTEMPTS
           then \<exists>pre post. snd (getPreviewUrls test_id emailClients fetch) =
                  pre @ [Fetch k, Sleep POLLING_INTERVAL_MS, Fetch (Suc k)] @ post
           else \<exists>pre m. getPreviewUrls test_id emailClients fetch =
                  (Inr m, pre @ [Fetch k, closing_summary emailClients m])))
   \<and> (Fetch k' \<in> set (snd (getPreviewUrls test_id' [] fetch'))
        \<and> fetch' k' = Response (Some res) \<and> res \<noteq> []
      \<longrightarrow> (if list_all (is_final res) (map fst res)
           then \<exists>pre m. getPreviewUrls test_id' [] fetch' =
                  (Inr m, pre @ [Fetch k', Console Info AllFinal, closing_summary [] m])
           else if Suc k' < MAX_POLLING_ATTEMPTS
           then \<exists>pre post. snd (getPreviewUrls test_id' [] fetch') =
                  pre @ [Fetch k', Sleep POLLING_INTERVAL_MS, Fetch (Suc k')] @ post
           else \<exists>pre m. getPreviewUrls test_id' [] fetch' =
                  (Inr m, pre @ [Fetch k', closing_summary [] m])))"
proof (intro conjI impI)
  show "clientsToMonitor [] currentApiResults = map fst currentApiResults"
    by (simp add: clientsToMonitor_def)
next
  assume "emailClients \<noteq> []"
  then show "clientsToMonitor emailClients currentApiResults = emailClients"
    by (simp add: clientsToMonitor_def)
next
  assume h: "emailClients \<noteq> []
        \<and> Fetch k \<in> set (snd (getPreviewUrls test_id emailClients fetch))
        \<and> fetch k = Response data"
  then have "clientsToMonitor emailClients (data_or_empty data) = emailClients"
    by (simp add: clientsToMonitor_def)
  with getPreviewUrls_after_response[of k test_id emailClients fetch data] h
  show "if list_all (is_final (data_or_empty data)) emailClients
           then \<exists>pre m. getPreviewUrls test_id emailClients fetch =
                  (Inr m, pre @ [Fetch k, Console Info AllFinal, closing_summary emailClients m])
           else if Suc k < MAX_POLLING_ATTEMPTS
           then \<exists>pre post. snd (getPreviewUrls test_id emailClients fetch) =
                  pre @ [Fetch k, Sleep POLLING_INTERVAL_MS, Fetch (Suc k)] @ post
           else \<exists>pre m. getPreviewUrls test_id emailClients fetch =
                  (Inr m, pre @ [Fetch k, closing_summary emailClients m])"
    by simp
next
  assume h: "Fetch k' \<in> set (snd (getPreviewUrls test_id' [] fetch'))
        \<and> fetch' k' = Response (Some res) \<and> res \<noteq> []"
  have "clientsToMonitor [] (data_or_empty (Some res)) = map fst res"
    "data_or_empty (Some res) = res"
    by (simp_all add: clientsToMonitor_def data_or_empty_def)
  with getPreviewUrls_after_response[of k' test_id' "[]" fetch' "Some res"] h
  show "if list_all (is_final res) (map fst res)
           then \<exists>pre m. getPreviewUrls test_id' [] fetch' =
                  (Inr m, pre @ [Fetch k', Console Info AllFinal, closing_summary [] m])
           else if Suc k' < MAX_POLLING_ATTEMPTS
           then \<exists>pre post. snd (getPreviewUrls test_id' [] fetch') =
                  pre @ [Fetch k', Sleep POLLING_INTERVAL_MS, Fetch (Suc k')] @ post
           else \<exists>pre m. getPreviewUrls test_id' [] fetch' =
                  (Inr m, pre @ [Fetch k', closing_summary [] m])"
    by simp
qed

theorem tracked_clients_per_attempt_witness:
  "(([''outlook'', ''gmail''] \<noteq> []
      \<and> Fetch 0 \<in> set (snd (getPreviewUrls ''job'' [''outlook'', ''gmail''] outlook_then_both))
      \<and> outlook_then_both 0
          = Response (Some [(''outlook'', client_complete ''https://preview/outlook.png'')]))
     \<and> (if list_all (is_final (data_or_empty
                (Some [(''outlook'', client_complete ''https://preview/outlook.png'')])))
              [''outlook'', ''gmail'']
         then \<exists>pre m. getPreviewUrls ''job'' [''outlook'', ''gmail''] outlook_then_both =
                (Inr m, pre @ [Fetch 0, Console Info AllFinal,
                               closing_summary [''outlook'', ''gmail''] m])
         else if Suc 0 < MAX_POLLING_ATTEMPTS
         then \<exists>pre post. snd (getPreviewUrls ''job'' [''outlook'', ''gmail''] outlook_then_both) =
                pre @ [Fetch 0, Sleep POLLING_INTERVAL_MS, Fetch (Suc 0)] @ post
         else \<exists>pre m. getPreviewUrls ''job'' [''outlook'', ''gmail''] outlook_then_both =
                (Inr m, pre @ [Fetch 0, closing_summary [''outlook'', ''gmail''] m])))
   \<and> ((Fetch 1 \<in> set (snd (getPreviewUrls ''job'' [] changing_keys))
        \<and> changing_keys 1 = Response (Some [(''b'', client_complete ''https://preview/b.png'')])
        \<and> [(''b'', client_complete ''https://preview/b.png'')] \<noteq> [])
      \<and> (if list_all (is_final [(''b'', client_complete ''https://preview/b.png'')])
              (map fst [(''b'', client_complete ''https://preview/b.png'')])
           then \<exists>pre m. getPreviewUrls ''job'' [] changing_keys =
                  (Inr m, pre @ [Fetch 1, Console Info AllFinal, closing_summary [] m])
           else if Suc 1 < MAX_POLLING_ATTEMPTS
           then \<exists>pre post. snd (getPreviewUrls ''job'' [] changing_keys) =
                  pre @ [Fetch 1, Sleep POLLING_INTERVAL_MS, Fetch (Suc 1)] @ post
           else \<exists>pre m. getPreviewUrls ''job'' [] changing_keys =
                  (Inr m, pre @ [Fetch 1, closing_summary [] m])))
   \<and> list_all (is_final [(''outlook'', client_complete ''https://preview/outlook.png'')])
        (map fst [(''outlook'', client_complete ''https://preview/outlook.png'')])
   \<and> \<not> list_all (is_final [(''outlook'', client_complete ''https://preview/outlook.png'')])
          [''outlook'', ''gmail'']
   \<and> getPreviewUrls ''job'' [''outlook'', ''gmail''] outlook_then_both
       = (Inr [(''outlook'', ''https://preview/outlook.png''),
               (''gmail'', ''https://preview/gmail.png'')],
          [Fetch 0, Sleep 10000, Fetch 1, Console Info AllFinal, Console Info (AllRetrieved 2)])"
  (is "(?H1 \<and> ?C1) \<and> (?H2 \<and> ?C2) \<and> ?V1 \<and> ?V2 \<and> ?V3")
proof -
  have h1: ?H1 by code_simp
  have h2: ?H2 by code_simp
  have v1: ?V1 by code_simp
  have v2: ?V2 by code_simp
  have v3: ?V3 by code_simp
  note i1 = tracked_clients_per_attempt
    [where emailClients = "[''outlook'', ''gmail'']" and k = 0 and test_id = "''job''"
       and fetch = outlook_then_both
       and data = "Some [(''outlook'', client_complete ''https://preview/outlook.png'')]"]
  note i2 = tracked_clients_per_attempt
    [where k' = 1 and test_id' = "''job''" and fetch' = changing_keys
       and res = "[(''b'', client_complete ''https://preview/b.png'')]"]
  from i1 h1 have c1: ?C1 by blast
  from i2 h2 have c2: ?C2 by blast
  from h1 h2 v1 v2 v3 c1 c2 show ?thesis by blast
qed

text \<open>
  C6 as stated fails when the keys change between responses: the key that appeared first
  never becomes final, and the loop still ends on the second attempt, whose only key is
  final.
\<close>

theorem tracked_clients_counterexample:
  "getPreviewUrls ''job'' [] changing_keys
     = (Inr [(''b'', ''https://preview/b.png'')],
        [Console Warning NoClientsRequested, Fetch 0, Sleep 10000, Fetch 1,
         Console Info AllFinal, Console Info (RetrievedUnrequested 1)])
   \<and> clientsToMonitor [] [(''a'', client_processing)] = [''a'']
   \<and> \<not> is_final [(''a'', client_processing)] ''a''
   \<and> \<not> is_final [(''b'', client_complete ''https://preview/b.png'')] ''a''"
  by code_simp

text \<open>
  C10. With a non-empty list of clients, every entry of the returned mapping belongs to a
  listed client and is the default screenshot URL of that client in the response of an
  attempt that was made and that reported the client complete. An entry is never removed:
  from any state of the loop to its result, and over any single attempt, a client that has
  a URL keeps one, either the same or the URL of a later response that reported it
  complete.
\<close>

theorem extracted_urls_invariant:
  "(emailClients \<noteq> [] \<and> getPreviewUrls test_id emailClients fetch = (Inr m, evs)
      \<and> map_of m c = Some u
     \<longrightarrow> c \<in> set emailClients
         \<and> (\<exists>j d. Fetch j \<in> set evs \<and> fetch j = Response d
                \<and> complete_url (data_or_empty d) c u))
   \<and> (poll_loop fetch emailClients attempt extractedUrls = (Inr m', evs')
      \<and> map_of extractedUrls c = Some u'
     \<longrightarrow> (\<exists>v. map_of m' c = Some v
            \<and> (v = u' \<or> (\<exists>j d. Fetch j \<in> set evs' \<and> fetch j = Response d
                            \<and> complete_url (data_or_empty d) c v))))
   \<and> (poll_attempt emailClients extractedUrls outcome = Next extractedUrls' allProcessed evs''
      \<and> map_of extractedUrls c = Some u'
     \<longrightarrow> (\<exists>v. map_of extractedUrls' c = Some v
            \<and> (v = u' \<or> (\<exists>d. outcome = Response d \<and> complete_url (data_or_empty d) c v))))"
proof (intro conjI impI)
  assume h: "emailClients \<noteq> [] \<and> getPreviewUrls test_id emailClients fetch = (Inr m, evs)
      \<and> map_of m c = Some u"
  then have t: "test_id \<noteq> []" by (auto simp: getPreviewUrls_def split: if_splits)
  let ?evs0 = "snd (poll_loop fetch emailClients 0 [])"
  from h t have pl: "poll_loop fetch emailClients 0 [] = (Inr m, ?evs0)"
    and sub: "set ?evs0 \<subseteq> set evs"
    by (auto simp: getPreviewUrls_unfold prod_eq_iff)
  from poll_loop_sourced[OF pl, of c u] h obtain j d where
    jd: "Fetch j \<in> set ?evs0" "fetch j = Response d"
        "c \<in> set (clientsToMonitor emailClients (data_or_empty d))"
        "complete_url (data_or_empty d) c u" by auto
  from jd(3) h show "c \<in> set emailClients" by (simp add: clientsToMonitor_def)
  from jd sub show "\<exists>j d. Fetch j \<in> set evs \<and> fetch j = Response d
                \<and> complete_url (data_or_empty d) c u" by blast
next
  assume "poll_loop fetch emailClients attempt extractedUrls = (Inr m', evs')
      \<and> map_of extractedUrls c = Some u'"
  then show "\<exists>v. map_of m' c = Some v
            \<and> (v = u' \<or> (\<exists>j d. Fetch j \<in> set evs' \<and> fetch j = Response d
                            \<and> complete_url (data_or_empty d) c v))"
    using poll_loop_kept[of fetch emailClients attempt extractedUrls m' evs' c u'] by blast
next
  assume h: "poll_attempt emailClients extractedUrls outcome = Next extractedUrls' allProcessed evs''
      \<and> map_of extractedUrls c = Some u'"
  then have d: "poll_attempt emailClients extractedUrls outcome = Stop (Inr extractedUrls') evs''
      \<or> poll_attempt emailClients extractedUrls outcome = Next extractedUrls' allProcessed evs''"
    by simp
  from poll_attempt_kept[OF d, of c u'] h
  show "\<exists>v. map_of extractedUrls' c = Some v
            \<and> (v = u' \<or> (\<exists>d. outcome = Response d \<and> complete_url (data_or_empty d) c v))"
    by blast
qed

theorem extracted_urls_invariant_witness:
  "(([''outlook''] \<noteq> []
      \<and> getPreviewUrls ''job'' [''outlook''] (\<lambda>n. outlook_done)
          = (Inr [(''outlook'', ''https://preview/outlook.png'')],
             [Fetch 0, Console Info AllFinal, Console Info (AllRetrieved 1)])
      \<and> map_of [(''outlook'', ''https://preview/outlook.png'')] ''outlook''
          = Some ''https://preview/outlook.png'')
     \<and> ''outlook'' \<in> set [''outlook'']
     \<and> (\<exists>j d. Fetch j \<in> set [Fetch 0, Console Info AllFinal, Console Info (AllRetrieved 1)]
            \<and> outlook_done = Response d
            \<and> complete_url (data_or_empty d) ''outlook'' ''https://preview/outlook.png''))
   \<and> ((poll_loop outlook_only [''outlook'', ''gmail''] 59 [(''outlook'', ''https://preview/old.png'')]
          = (Inr [(''outlook'', ''https://preview/outlook.png'')], [Fetch 59])
      \<and> map_of [(''outlook'', ''https://preview/old.png'')] ''outlook''
          = Some ''https://preview/old.png'')
     \<and> (\<exists>v. map_of [(''outlook'', ''https://preview/outlook.png'')] ''outlook'' = Some v
            \<and> (v = ''https://preview/old.png''
                \<or> (\<exists>j d. Fetch j \<in> set [Fetch 59] \<and> outlook_only j = Response d
                          \<and> complete_url (data_or_empty d) ''outlook'' v))))
   \<and> ((poll_attempt [''outlook'', ''gmail''] [(''outlook'', ''https://preview/old.png'')]
           (outlook_only 0)
          = Next [(''outlook'', ''https://preview/outlook.png'')] False []
      \<and> map_of [(''outlook'', ''https://preview/old.png'')] ''outlook''
          = Some ''https://preview/old.png'')
     \<and> (\<exists>v. map_of [(''outlook'', ''https://preview/outlook.png'')] ''outlook'' = Some v
            \<and> (v = ''https://preview/old.png''
                \<or> (\<exists>d. outlook_only 0 = Response d
                        \<and> complete_url (data_or_empty d) ''outlook'' v))))"
  (is "(?H1 \<and> ?C1) \<and> (?H2 \<and> ?C2) \<and> (?H3 \<and> ?C3)")
proof -
  have h1: ?H1 by code_simp
  have h2: ?H2 by code_simp
  have h3: ?H3 by code_simp
  note inst1 = extracted_urls_invariant
    [where emailClients = "[''outlook'']" and test_id = "''job''" and fetch = "\<lambda>n. outlook_done"
       and m = "[(''outlook'', ''https://preview/outlook.png'')]"
       and evs = "[Fetch 0, Console Info AllFinal, Console Info (AllRetrieved 1)]"
       and c = "''outlook''" and u = "''https://preview/outlook.png''"]
  note inst2 = extracted_urls_invariant
    [where emailClients = "[''outlook'', ''gmail'']" and fetch = outlook_only and attempt = 59
       and extractedUrls = "[(''outlook'', ''https://preview/old.png'')]"
       and m' = "[(''outlook'', ''https://preview/outlook.png'')]" and evs' = "[Fetch 59]"
       and c = "''outlook''" and u' = "''https://preview/old.png''"
       and outcome = "outlook_only 0"
       and extractedUrls' = "[(''outlook'', ''https://preview/outlook.png'')]"
       and allProcessed = False and evs'' = "[]"]
  from inst1 h1 have c1: ?C1 by blast
  from inst2 h2 have c2: ?C2 by blast
  from inst2 h3 have c3: ?C3 by blast
  from h1 h2 h3 c1 c2 c3 show ?thesis by blast
qed

section \<open>The claim about the Gmail extractor\<close>

lemma first_html_append:
  "first_html decode (xs @ ys) =
     (if filter html_candidate xs = [] then first_html decode ys else first_html decode xs)"
  by (cases "filter html_candidate xs") (simp_all add: first_html_def)

lemma first_html_None: "first_html decode xs = None \<Longrightarrow> filter html_candidate xs = []"
  by (cases "filter html_candidate xs")
     (auto simp: first_html_def html_candidate_def filter_eq_Cons_iff)

lemma has_data_data_of:
  "has_data b = (case data_of (MessagePart mt b ps) of None \<Rightarrow> None
                 | Some d \<Rightarrow> if d = [] then None else Some d)"
  by (cases "(b)" rule: has_data.cases) simp_all

lemma search_parts_not_empty_string:
  "getHtmlFromPayload decode p = Some [] \<Longrightarrow>
     mimeType p = Some ''text/html'' \<and> has_data (body p) \<noteq> None"
  "search_parts decode ps \<noteq> Some []"
  by (induction decode p and decode ps rule: getHtmlFromPayload_search_parts.induct)
     (auto split: option.splits if_splits)

lemma filter_head: "filter P xs = q # qs \<Longrightarrow> P q"
  by (auto simp: filter_eq_Cons_iff)

lemma candidate_has_data:
  "html_candidate (MessagePart mt b ps) =
     (mt = Some ''text/html'' \<and> data_of (MessagePart mt b ps) \<noteq> None)"
  by (simp add: html_candidate_def)

lemma not_recognised_searches:
  "\<not> (mt = Some ''text/html'' \<and> has_data b \<noteq> None) \<Longrightarrow>
   getHtmlFromPayload decode (MessagePart mt b ps) = search_parts decode ps"
  by auto

lemma extractor_strict:
  "(case filter html_candidate (preorder p) of
      [] \<Rightarrow> True
    | q # rest \<Rightarrow> (case data_of q of None \<Rightarrow> False | Some d \<Rightarrow> d \<noteq> [] \<and> decode d \<noteq> []))
   \<Longrightarrow> getHtmlFromPayload decode p = first_html decode (preorder p)"
  "(case filter html_candidate (preorder_list ps) of
      [] \<Rightarrow> True
    | q # rest \<Rightarrow> (case data_of q of None \<Rightarrow> False | Some d \<Rightarrow> d \<noteq> [] \<and> decode d \<noteq> []))
   \<Longrightarrow> search_parts decode ps = first_html decode (preorder_list ps)"
proof (induction decode p and decode ps rule: getHtmlFromPayload_search_parts.induct)
  case (1 decode mt b ps)
  let ?p = "MessagePart mt b ps"
  show ?case
  proof (cases "html_candidate ?p")
    case True
    with "1.prems" obtain d where d: "data_of ?p = Some d" "d \<noteq> []" "decode d \<noteq> []"
      by (auto split: option.splits)
    then have hd: "has_data b = Some d" by (simp add: has_data_data_of[of b mt ps])
    from True have "mt = Some ''text/html''" by (simp add: html_candidate_def)
    with hd d True show ?thesis by (simp add: first_html_def)
  next
    case False
    then have nr: "\<not> (mt = Some ''text/html'' \<and> has_data b \<noteq> None)"
      by (auto simp: html_candidate_def has_data_data_of[of b mt ps] split: option.splits if_splits)
    from False have f: "filter html_candidate (preorder ?p) = filter html_candidate (preorder_list ps)"
      by simp
    then have fh: "first_html decode (preorder ?p) = first_html decode (preorder_list ps)"
      by (simp only: first_html_def)
    from "1.prems" have "case filter html_candidate (preorder_list ps) of
      [] \<Rightarrow> True
    | q # rest \<Rightarrow> (case data_of q of None \<Rightarrow> False | Some d \<Rightarrow> d \<noteq> [] \<and> decode d \<noteq> [])"
      by (simp only: f)
    from "1.IH"[OF nr this] show ?thesis
      unfolding fh not_recognised_searches[OF nr] .
  qed
next
  case (2 decode)
  then show ?case by (simp add: first_html_def)
next
  case (3 decode part rest)
  show ?case
  proof (cases "filter html_candidate (preorder part)")
    case Nil
    then have a: "case filter html_candidate (preorder part) of
      [] \<Rightarrow> True
    | q # rest \<Rightarrow> (case data_of q of None \<Rightarrow> False | Some d \<Rightarrow> d \<noteq> [] \<and> decode d \<noteq> [])"
      by simp
    from "3.IH"(1)[OF a] Nil have g: "getHtmlFromPayload decode part = None"
      by (simp add: first_html_def)
    from "3.prems" Nil have b: "case filter html_candidate (preorder_list rest) of
      [] \<Rightarrow> True
    | q # rest \<Rightarrow> (case data_of q of None \<Rightarrow> False | Some d \<Rightarrow> d \<noteq> [] \<and> decode d \<noteq> [])"
      by simp
    from "3.IH"(2)[OF g b] g Nil show ?thesis by (simp add: first_html_append)
  next
    case (Cons q qs)
    with "3.prems" have a: "case filter html_candidate (preorder part) of
      [] \<Rightarrow> True
    | q # rest \<Rightarrow> (case data_of q of None \<Rightarrow> False | Some d \<Rightarrow> d \<noteq> [] \<and> decode d \<noteq> [])"
      by simp
    from Cons "3.prems" obtain d where d: "data_of q = Some d" "decode d \<noteq> []"
      by (auto split: option.splits)
    have fh: "first_html decode (preorder part) = Some (decode d)"
      using Cons d by (simp add: first_html_def)
    with "3.IH"(1)[OF a] have g: "getHtmlFromPayload decode part = Some (decode d)"
      by simp
    have s: "search_parts decode (part # rest) = Some (decode d)"
      using g d by simp
    have fa: "first_html decode (preorder_list (part # rest)) = Some (decode d)"
      using Cons fh by (simp add: first_html_append)
    show ?thesis by (simp only: s fa)
  qed
qed

text \<open>
  C9, as amended. getHtmlFromPayload returns the decoded data of the first part, in
  depth-first pre-order, whose type is text/html and whose body data is present, and null when
  there is no such part, provided that this first part carries non-empty data and, unless it
  is the payload itself, that its data decodes to a non-empty string. Where this proviso
  fails, and the decoder takes the empty string to the empty string, the result is not the
  decoded data of that first part.
\<close>

theorem extractor_returns_first_html:
  "(first_candidate_usable decode payload
      \<longrightarrow> getHtmlFromPayload decode payload = first_html decode (preorder payload))
   \<and> (decode [] = [] \<and> \<not> first_candidate_usable decode payload
      \<longrightarrow> getHtmlFromPayload decode payload \<noteq> first_html decode (preorder payload))"
proof (cases payload)
  case (MessagePart mt b ps)
  let ?p = "MessagePart mt b ps"
  show ?thesis
  proof (cases "html_candidate ?p")
    case True
    then obtain d where d: "data_of ?p = Some d" and mt: "mt = Some ''text/html''"
      by (auto simp: html_candidate_def)
    from True d have fh: "first_html decode (preorder ?p) = Some (decode d)"
      by (simp add: first_html_def)
    from True d have u: "first_candidate_usable decode ?p = (d \<noteq> [])"
      by (simp add: first_candidate_usable_def)
    show ?thesis
    proof (cases "d = []")
      case False
      with d have "has_data b = Some d" by (simp add: has_data_data_of[of b mt ps])
      with mt have "getHtmlFromPayload decode ?p = Some (decode d)" by simp
      with fh u False MessagePart show ?thesis by simp
    next
      case e: True
      with d have "has_data b = None" by (simp add: has_data_data_of[of b mt ps])
      then have "getHtmlFromPayload decode ?p = search_parts decode ps" by simp
      with search_parts_not_empty_string(2)[of decode ps]
      have "decode [] = [] \<longrightarrow> getHtmlFromPayload decode ?p \<noteq> Some (decode d)"
        using e by auto
      with fh u e MessagePart show ?thesis by simp
    qed
  next
    case False
    then have nr: "\<not> (mt = Some ''text/html'' \<and> has_data b \<noteq> None)"
      by (auto simp: html_candidate_def has_data_data_of[of b mt ps] split: option.splits if_splits)
    have g: "getHtmlFromPayload decode ?p = search_parts decode ps"
      by (rule not_recognised_searches[OF nr])
    from False have u: "first_candidate_usable decode ?p =
        (case filter html_candidate (preorder ?p) of
          [] \<Rightarrow> True
        | q # rest \<Rightarrow> (case data_of q of None \<Rightarrow> False | Some d \<Rightarrow> d \<noteq> [] \<and> decode d \<noteq> []))"
      by (auto simp: first_candidate_usable_def split: list.splits option.splits)
    have pos: "first_candidate_usable decode ?p
        \<longrightarrow> getHtmlFromPayload decode ?p = first_html decode (preorder ?p)"
      using extractor_strict(1)[where p = ?p and decode = decode] unfolding u by blast
    have neg: "decode [] = [] \<and> \<not> first_candidate_usable decode ?p
        \<longrightarrow> getHtmlFromPayload decode ?p \<noteq> first_html decode (preorder ?p)"
    proof
      assume h: "decode [] = [] \<and> \<not> first_candidate_usable decode ?p"
      then obtain q qs where q: "filter html_candidate (preorder ?p) = q # qs"
        unfolding u by (auto split: list.splits)
      then have "html_candidate q" by (rule filter_head)
      then obtain d where d: "data_of q = Some d" by (auto simp: html_candidate_def)
      with h q have "d = [] \<or> decode d = []" unfolding u by auto
      with h have "decode d = []" by auto
      with q d have "first_html decode (preorder ?p) = Some []" by (simp add: first_html_def)
      with g search_parts_not_empty_string(2)[of decode ps]
      show "getHtmlFromPayload decode ?p \<noteq> first_html decode (preorder ?p)" by simp
    qed
    from pos neg MessagePart show ?thesis by blast
  qed
qed

theorem extractor_returns_first_html_witness:
  "(first_candidate_usable base64_utf8 html_then_empty
     \<and> getHtmlFromPayload base64_utf8 html_then_empty
         = first_html base64_utf8 (preorder html_then_empty))
   \<and> first_html base64_utf8 (preorder html_then_empty) = Some ''<b>hi</b>''
   \<and> ((base64_utf8 [] = [] \<and> \<not> first_candidate_usable base64_utf8 two_html_parts)
     \<and> getHtmlFromPayload base64_utf8 two_html_parts
         \<noteq> first_html base64_utf8 (preorder two_html_parts))
   \<and> first_candidate_usable base64_utf8 (html_part ''='')
   \<and> getHtmlFromPayload base64_utf8 (html_part ''='')
       = first_html base64_utf8 (preorder (html_part ''=''))"
proof -
  have h1: "first_candidate_usable base64_utf8 html_then_empty" by code_simp
  have v: "first_html base64_utf8 (preorder html_then_empty) = Some ''<b>hi</b>''" by code_simp
  have h2: "base64_utf8 [] = [] \<and> \<not> first_candidate_usable base64_utf8 two_html_parts"
    by code_simp
  have h3: "first_candidate_usable base64_utf8 (html_part ''='')" by code_simp
  note i1 = extractor_returns_first_html[of base64_utf8 html_then_empty]
  note i2 = extractor_returns_first_html[of base64_utf8 two_html_parts]
  note i3 = extractor_returns_first_html[of base64_utf8 "html_part ''=''"]
  from i1 h1 have c1: "getHtmlFromPayload base64_utf8 html_then_empty
         = first_html base64_utf8 (preorder html_then_empty)" by blast
  from i2 h2 have c2: "getHtmlFromPayload base64_utf8 two_html_parts
         \<noteq> first_html base64_utf8 (preorder two_html_parts)" by blast
  from i3 h3 have c3: "getHtmlFromPayload base64_utf8 (html_part ''='')
       = first_html base64_utf8 (preorder (html_part ''=''))" by blast
  from h1 h2 h3 v c1 c2 c3 show ?thesis by blast
qed

text \<open>
  C9 as stated fails where the first candidate decodes to the empty string: the loop over
  the parts passes it over (\<^verbatim>\<open>if (html)\<close>) and a later part is returned.
\<close>

theorem extractor_counterexample:
  "first_html base64_utf8 (preorder two_html_parts) = Some []
   \<and> getHtmlFromPayload base64_utf8 two_html_parts = Some ''<b>hi</b>''"
  by code_simp

section \<open>The claim about globalSetup\<close>

lemma write_previews_Finished:
  assumes "fst (write_previews stringify w taskName html clients) = Finished"
  shows "\<exists>test_id previewUrlsMap.
        fst (getPreviewUrls test_id clients (results_endpoint w)) = Inr previewUrlsMap
      \<and> snd (write_previews stringify w taskName html clients) (GENERATED_URLS_FILE taskName)
          = Some (stringify (generatedPreviews previewUrlsMap))
      \<and> snd (write_previews stringify w taskName html clients) (archiveFilePath taskName (clock w))
          = Some (stringify (generatedPreviews previewUrlsMap))"
proof (cases "injectHtml w html clients")
  case None
  with assms show ?thesis by (simp add: write_previews_def)
next
  case (Some test_id)
  show ?thesis
  proof (cases "fst (getPreviewUrls test_id clients (results_endpoint w))")
    case (Inl e)
    with Some assms show ?thesis by (simp add: write_previews_def)
  next
    case (Inr m)
    with Some assms have wr: "writable w (GENERATED_URLS_FILE taskName)"
      "writable w (archiveFilePath taskName (clock w))"
      by (auto simp: write_previews_def Let_def split: if_splits)
    with Some Inr have "snd (write_previews stringify w taskName html clients) =
        ((files w)(GENERATED_URLS_FILE taskName \<mapsto> stringify (generatedPreviews m)))
          (archiveFilePath taskName (clock w) \<mapsto> stringify (generatedPreviews m))"
      by (simp add: write_previews_def Let_def)
    with Inr show ?thesis by auto
  qed
qed

text \<open>
  C8. When globalSetup runs to its end (it neither throws nor leaves early because
  TASK_NAME is not set), the manifest file and the archive file with the time stamp in its
  name both exist afterwards, and both hold the same text: the serialisation of the list
  of generated previews made from the mapping that getPreviewUrls returned.
\<close>

theorem archive_equals_manifest:
  "fst (globalSetup stringify w) = Finished \<Longrightarrow>
   \<exists>taskName test_id desiredApiClients previewUrlsMap.
        env w ''TASK_NAME'' = Some taskName
      \<and> fst (getPreviewUrls test_id desiredApiClients (results_endpoint w)) = Inr previewUrlsMap
      \<and> snd (globalSetup stringify w) (GENERATED_URLS_FILE taskName)
          = Some (stringify (generatedPreviews previewUrlsMap))
      \<and> snd (globalSetup stringify w) (archiveFilePath taskName (clock w))
          = Some (stringify (generatedPreviews previewUrlsMap))"
proof -
  assume fin: "fst (globalSetup stringify w) = Finished"
  then obtain taskName html clients where
    t: "env w ''TASK_NAME'' = Some taskName"
    and g: "globalSetup stringify w = write_previews stringify w taskName html clients"
    by (auto simp: globalSetup_def split: option.splits if_splits)
  from fin g have "fst (write_previews stringify w taskName html clients) = Finished" by simp
  from write_previews_Finished[OF this] t g show ?thesis by metis
qed

theorem archive_equals_manifest_witness:
  "fst (globalSetup names_and_urls spring_sale_world) = Finished
   \<and> (\<exists>taskName test_id desiredApiClients previewUrlsMap.
        env spring_sale_world ''TASK_NAME'' = Some taskName
      \<and> fst (getPreviewUrls test_id desiredApiClients (results_endpoint spring_sale_world))
          = Inr previewUrlsMap
      \<and> snd (globalSetup names_and_urls spring_sale_world) (GENERATED_URLS_FILE taskName)
          = Some (names_and_urls (generatedPreviews previewUrlsMap))
      \<and> snd (globalSetup names_and_urls spring_sale_world)
            (archiveFilePath taskName (clock spring_sale_world))
          = Some (names_and_urls (generatedPreviews previewUrlsMap)))
   \<and> snd (globalSetup names_and_urls spring_sale_world)
        [''temp'', ''generated-preview-urls-spring_sale.json'']
       = Some ''Outlook Preview: https://preview/outlook.png; ''
   \<and> snd (globalSetup names_and_urls spring_sale_world)
        [''temp'', ''archives'', ''generated-preview-urls-spring_sale-2025-07-23-20-58-00-007.json'']
       = Some ''Outlook Preview: https://preview/outlook.png; ''"
proof -
  have h: "fst (globalSetup names_and_urls spring_sale_world) = Finished"
    by code_simp
  have m: "snd (globalSetup names_and_urls spring_sale_world)
        [''temp'', ''generated-preview-urls-spring_sale.json'']
       = Some ''Outlook Preview: https://preview/outlook.png; ''"
    by code_simp
  have a: "snd (globalSetup names_and_urls spring_sale_world)
        [''temp'', ''archives'', ''generated-preview-urls-spring_sale-2025-07-23-20-58-00-007.json'']
       = Some ''Outlook Preview: https://preview/outlook.png; ''"
    by code_simp
  from archive_equals_manifest[OF h] h m a show ?thesis by blast
qed

end
